theory Spec2Isabelle
  imports Main
begin

section \<open>The relay of server.js: data model\<close>

text \<open>
  A socket object \<open>ws\<close> is the key of the \<open>clients\<close> Map and the value of \<open>waitingUser\<close>
  and of every \<open>partner\<close> field. Objects are compared by identity, so a socket is modelled
  by the number of its allocation.
\<close>

type_synonym ws = nat

text \<open>The four values of \<open>STATES\<close>.\<close>

datatype sstate = IDLE | SEARCHING | CONNECTING | CONNECTED

text \<open>The four values of a socket's \<open>readyState\<close>; \<open>WebSocket.OPEN\<close> is \<open>WS_OPEN\<close>.\<close>

datatype ready = WS_CONNECTING | WS_OPEN | WS_CLOSING | WS_CLOSED

text \<open>
  A number as \<open>JSON.parse\<close> returns it: a double, or an infinity when the literal
  overflows (\<open>NaN\<close> never comes out of \<open>JSON.parse\<close>). A finite double is kept as the
  decimal text that \<open>Number.prototype.toString\<close> prints for it, which determines the double;
  only \<open>0\<close> and \<open>-0\<close> share the text \<open>0\<close>, and nothing in the relay tells those two
  apart. The conversion of a literal to the nearest double is the work of \<open>JSON.parse\<close>
  and reaches the relay with the parsed frame: the literal \<open>12345678901234567890\<close> arrives
  as \<open>Finite ''12345678901234567000''\<close>.
\<close>

datatype number = Finite string | PosInfinity | NegInfinity

text \<open>
  What \<open>JSON.parse\<close> returns. A string is kept as the bytes of its UTF-8 text (a string
  with an unpaired surrogate has no such text and no value here). An object is the list of
  its own properties in the order JavaScript enumerates them, each key once.
\<close>

datatype json =
    JNull
  | JBool bool
  | JNum number
  | JStr string
  | JArr "json list"
  | JObj "(string \<times> json) list"

text \<open>
  A transport frame as the \<open>message\<close> handler sees it: either \<open>JSON.parse\<close> throws on it,
  or it yields a value.
\<close>

datatype frame = Unparseable | Parsed json

text \<open>JavaScript truthiness of a parsed value (the left operand of \<open>name || "Stranger"\<close>).\<close>

fun truthy :: "json \<Rightarrow> bool" where
  "truthy JNull = False"
| "truthy (JBool b) = b"
| "truthy (JNum n) = (n \<noteq> Finite ''0'')"
| "truthy (JStr s) = (s \<noteq> [])"
| "truthy (JArr xs) = True"
| "truthy (JObj kvs) = True"

text \<open>
  Property read \<open>data.k\<close> on a value other than \<open>null\<close>; \<open>None\<close> is \<open>undefined\<close>.
  Only an object can own the properties \<open>type\<close> and \<open>name\<close>; on \<open>null\<close> the read throws,
  which the \<open>message\<close> handler below settles before it reads.
\<close>

fun get_prop :: "json \<Rightarrow> string \<Rightarrow> json option" where
  "get_prop (JObj kvs) k = map_of kvs k"
| "get_prop v k = None"

text \<open>The entry that the \<open>connection\<close> handler stores in \<open>clients\<close>.\<close>

record client =
  cid :: string
  name :: json
  state :: sstate
  partner :: "ws option"

text \<open>
  The module state: the \<open>clients\<close> Map, \<open>waitingUser\<close>, and around them the environment
  that the handlers read and write: the \<open>readyState\<close> of every socket, the calls of
  \<open>ws.send\<close> made so far, oldest first, and the number of the next socket object. Each
  call is logged twice: in \<open>sent\<close> with the payload object that was serialised, in \<open>wire\<close>
  with the text that \<open>JSON.stringify\<close> made of it, which is what the socket is given.
\<close>

record server =
  clients :: "ws \<rightharpoonup> client"
  waitingUser :: "ws option"
  readyState :: "ws \<Rightarrow> ready"
  sent :: "(ws \<times> json) list"
  wire :: "(ws \<times> string) list"
  next_ws :: nat

definition ALLOWED_ORIGINS :: "string list" where
  "ALLOWED_ORIGINS = [''https://anonchatsgs.web.app'', ''https://anonchatsgs.firebaseapp.com'']"

section \<open>Payloads\<close>

definition matched :: "bool \<Rightarrow> json \<Rightarrow> json" where
  "matched ini pname =
     JObj [(''type'', JStr ''matched''), (''initiator'', JBool ini), (''partnerName'', pname)]"

definition partner_left :: json where
  "partner_left = JObj [(''type'', JStr ''partner-left'')]"

definition error_reply :: json where
  "error_reply = JObj [(''type'', JStr ''error''), (''message'', JStr ''Invalid payload'')]"

text \<open>\<open>name || "Stranger"\<close>, where \<open>name\<close> may be \<open>undefined\<close>.\<close>

definition or_stranger :: "json option \<Rightarrow> json" where
  "or_stranger nm = (case nm of
       None \<Rightarrow> JStr ''Stranger''
     | Some v \<Rightarrow> if truthy v then v else JStr ''Stranger'')"

section \<open>Serialisation\<close>

text \<open>
  \<open>JSON.stringify\<close> on the values above. A string is quoted with the escapes of
  \<open>QuoteJSONString\<close>: the quote, the backslash, the five short control escapes, and
  \<open>\u00xx\<close> in lower-case hexadecimal for the other characters below 0x20.
\<close>

definition hex_digit :: "nat \<Rightarrow> char" where
  "hex_digit n = ''0123456789abcdef'' ! (n mod 16)"

definition escape :: "char \<Rightarrow> string" where
  "escape c =
     (if c = CHR 0x22 then [CHR 0x5C, CHR 0x22]
      else if c = CHR 0x5C then [CHR 0x5C, CHR 0x5C]
      else if c = CHR 0x08 then [CHR 0x5C, CHR ''b'']
      else if c = CHR 0x09 then [CHR 0x5C, CHR ''t'']
      else if c = CHR 0x0A then [CHR 0x5C, CHR ''n'']
      else if c = CHR 0x0C then [CHR 0x5C, CHR ''f'']
      else if c = CHR 0x0D then [CHR 0x5C, CHR ''r'']
      else if (of_char c :: nat) < 32
        then [CHR 0x5C, CHR ''u'', CHR ''0'', CHR ''0'',
              hex_digit (of_char c div 16), hex_digit (of_char c)]
      else [c])"

definition quote :: "string \<Rightarrow> string" where
  "quote s = CHR 0x22 # concat (map escape s) @ [CHR 0x22]"

fun join_comma :: "string list \<Rightarrow> string" where
  "join_comma [] = []"
| "join_comma [x] = x"
| "join_comma (x # y # ys) = x @ '','' @ join_comma (y # ys)"

text \<open>
  No white space is written; a finite number is written as its decimal text and an
  infinity as \<open>null\<close>; the properties of an object are written in their order.
\<close>

fun JSON_stringify :: "json \<Rightarrow> string"
  and stringify_elements :: "json list \<Rightarrow> string list"
  and stringify_members :: "(string \<times> json) list \<Rightarrow> string list" where
  "JSON_stringify JNull = ''null''"
| "JSON_stringify (JBool b) = (if b then ''true'' else ''false'')"
| "JSON_stringify (JNum n) =
     (case n of Finite t \<Rightarrow> t | PosInfinity \<Rightarrow> ''null'' | NegInfinity \<Rightarrow> ''null'')"
| "JSON_stringify (JStr s) = quote s"
| "JSON_stringify (JArr xs) = ''['' @ join_comma (stringify_elements xs) @ '']''"
| "JSON_stringify (JObj kvs) = ''{'' @ join_comma (stringify_members kvs) @ ''}''"
| "stringify_elements [] = []"
| "stringify_elements (x # xs) = JSON_stringify x # stringify_elements xs"
| "stringify_members [] = []"
| "stringify_members ((k, v) # kvs) =
     (quote k @ '':'' @ JSON_stringify v) # stringify_members kvs"

section \<open>Helpers and handlers\<close>

text \<open>
  A bare \<open>ws.send(JSON.stringify(payload))\<close>: the payload is serialised and the text is
  handed to the socket, whatever the socket's state.
\<close>

definition ws_send :: "server \<Rightarrow> ws \<Rightarrow> json \<Rightarrow> server" where
  "ws_send s w payload =
     s\<lparr>sent := sent s @ [(w, payload)], wire := wire s @ [(w, JSON_stringify payload)]\<rparr>"

definition sendJSON :: "server \<Rightarrow> ws \<Rightarrow> json \<Rightarrow> server" where
  "sendJSON s w payload =
     (if readyState s w = WS_OPEN then ws_send s w payload else s)"

text \<open>
  \<open>handleJoin(ws, client, name)\<close>. The parameter \<open>client\<close> is the object \<open>clients.get(ws)\<close>,
  so writing its fields writes the entry of \<open>ws\<close>; the caller has checked that it exists.
\<close>

definition handleJoin :: "server \<Rightarrow> ws \<Rightarrow> json option \<Rightarrow> server" where
  "handleJoin s w nm =
     (case clients s w of
        None \<Rightarrow> s
      | Some client \<Rightarrow>
          if state client = SEARCHING then s
          else
            let client1 = client\<lparr>name := or_stranger nm, state := SEARCHING\<rparr>;
                s1 = s\<lparr>clients := (clients s)(w \<mapsto> client1)\<rparr>
            in (case waitingUser s1 of
                  None \<Rightarrow> s1\<lparr>waitingUser := Some w\<rparr>
                | Some p \<Rightarrow>
                    if p = w then s1\<lparr>waitingUser := Some w\<rparr>
                    else (case clients s1 p of
                            None \<Rightarrow> s1\<lparr>waitingUser := Some w\<rparr>
                          | Some partnerData \<Rightarrow>
                              if state partnerData \<noteq> SEARCHING then s1\<lparr>waitingUser := Some w\<rparr>
                              else
                                let client2 = client1\<lparr>state := CONNECTING, partner := Some p\<rparr>;
                                    partnerData2 = partnerData\<lparr>state := CONNECTING, partner := Some w\<rparr>;
                                    s2 = s1\<lparr>waitingUser := None,
                                           clients := (clients s1)(w \<mapsto> client2, p \<mapsto> partnerData2)\<rparr>;
                                    s3 = sendJSON s2 w (matched True (name partnerData2))
                                in sendJSON s3 p (matched False (name client2)))))"

definition handleSignal :: "server \<Rightarrow> ws \<Rightarrow> json \<Rightarrow> server" where
  "handleSignal s w data =
     (case clients s w of
        None \<Rightarrow> s
      | Some client \<Rightarrow>
          (case partner client of
             None \<Rightarrow> s
           | Some p \<Rightarrow> if readyState s p = WS_OPEN then sendJSON s p data else s))"

definition handleDisconnect :: "server \<Rightarrow> ws \<Rightarrow> server" where
  "handleDisconnect s w =
     (case clients s w of
        None \<Rightarrow> s
      | Some client \<Rightarrow>
          let s1 = (if waitingUser s = Some w then s\<lparr>waitingUser := None\<rparr> else s);
              s2 = (case partner client of
                      None \<Rightarrow> s1
                    | Some p \<Rightarrow>
                        (case clients s1 p of
                           None \<Rightarrow> s1
                         | Some partnerData \<Rightarrow>
                             sendJSON
                               (s1\<lparr>clients := (clients s1)(p \<mapsto> partnerData\<lparr>partner := None\<rparr>)\<rparr>)
                               p partner_left))
          in s2\<lparr>clients := (clients s2)(w := None)\<rparr>)"

text \<open>
  The \<open>message\<close> handler. \<open>JSON.parse\<close> comes first and its exception is caught; the lookup
  of the client follows; \<open>data.type\<close> throws a TypeError when \<open>data\<close> is \<open>null\<close>, which the
  same \<open>catch\<close> answers. A type other than the three tested ones falls through the chain.
\<close>

definition on_message :: "server \<Rightarrow> ws \<Rightarrow> frame \<Rightarrow> server" where
  "on_message s w f =
     (case f of
        Unparseable \<Rightarrow> ws_send s w error_reply
      | Parsed data \<Rightarrow>
          (case clients s w of
             None \<Rightarrow> s
           | Some client \<Rightarrow>
               if data = JNull then ws_send s w error_reply
               else if get_prop data ''type'' = Some (JStr ''join'')
                 then handleJoin s w (get_prop data ''name'')
               else if get_prop data ''type'' = Some (JStr ''signal'')
                 then handleSignal s w data
               else if get_prop data ''type'' = Some (JStr ''connected'')
                 then s\<lparr>clients := (clients s)(w \<mapsto> client\<lparr>state := CONNECTED\<rparr>)\<rparr>
               else s))"

text \<open>
  The \<open>connection\<close> handler. The socket is a new object, open when the event is emitted;
  \<open>origin\<close> is \<open>req.headers.origin\<close> (\<open>None\<close> when the header is absent), \<open>uuid\<close> the value
  of \<open>randomUUID()\<close>. A refused socket is closed by the relay and gets no entry and no
  handlers.
\<close>

definition on_connection :: "server \<Rightarrow> string option \<Rightarrow> string \<Rightarrow> server" where
  "on_connection s origin uuid =
     (let w = next_ws s;
          s0 = s\<lparr>next_ws := Suc w\<rparr>
      in case origin of
           None \<Rightarrow> s0\<lparr>readyState := (readyState s0)(w := WS_CLOSING)\<rparr>
         | Some orig \<Rightarrow>
             if orig \<notin> set ALLOWED_ORIGINS
             then s0\<lparr>readyState := (readyState s0)(w := WS_CLOSING)\<rparr>
             else s0\<lparr>clients := (clients s0)(w \<mapsto>
                        \<lparr>cid = uuid, name = JStr ''Anonymous'', state = IDLE, partner = None\<rparr>),
                      readyState := (readyState s0)(w := WS_OPEN)\<rparr>)"

section \<open>Runs of the relay\<close>

text \<open>
  The events that reach the single-threaded process: a new connection, a frame on a socket,
  the \<open>close\<close> event of a socket (emitted once its \<open>readyState\<close> is \<open>CLOSED\<close>), and a change
  of a socket's \<open>readyState\<close> made by the transport.
\<close>

datatype event =
    Connection "string option" string
  | Message ws frame
  | Close ws
  | Transport ws ready

fun step :: "server \<Rightarrow> event \<Rightarrow> server" where
  "step s (Connection origin uuid) = on_connection s origin uuid"
| "step s (Message w f) = on_message s w f"
| "step s (Close w) = handleDisconnect (s\<lparr>readyState := (readyState s)(w := WS_CLOSED)\<rparr>) w"
| "step s (Transport w r) = s\<lparr>readyState := (readyState s)(w := r)\<rparr>"

definition init :: server where
  "init = \<lparr>clients = Map.empty, waitingUser = None, readyState = (\<lambda>w. WS_CONNECTING),
           sent = [], wire = [], next_ws = 0\<rparr>"

definition run :: "event list \<Rightarrow> server" where
  "run evs = foldl step init evs"

text \<open>A \<open>join\<close> frame with a name, and the frames without fields.\<close>

definition join_frame :: "string \<Rightarrow> frame" where
  "join_frame n = Parsed (JObj [(''type'', JStr ''join''), (''name'', JStr n)])"

definition connected_frame :: frame where
  "connected_frame = Parsed (JObj [(''type'', JStr ''connected'')])"

definition origin_ok :: "string option" where
  "origin_ok = Some ''https://anonchatsgs.web.app''"

section \<open>Predicates and sample runs\<close>

text \<open>
  The staleness test of \<open>handleJoin\<close> on the slot's occupant:
  \<open>!partnerData || partnerData.state !== STATES.SEARCHING\<close>.
\<close>

definition stale :: "server \<Rightarrow> ws \<Rightarrow> bool" where
  "stale s p = (case clients s p of
                  None \<Rightarrow> True
                | Some partnerData \<Rightarrow> state partnerData \<noteq> SEARCHING)"

text \<open>
  What every run keeps: no entry names its own socket as partner, and an entry in state
  \<open>SEARCHING\<close> belongs to the socket held in \<open>waitingUser\<close>.
\<close>

definition inv :: "server \<Rightarrow> bool" where
  "inv s \<longleftrightarrow> (\<forall>w c. clients s w = Some c \<longrightarrow>
       partner c \<noteq> Some w \<and> (state c = SEARCHING \<longrightarrow> waitingUser s = Some w))"

text \<open>The sends a handler adds to the log, given the states before and after it.\<close>

definition new_sends :: "server \<Rightarrow> server \<Rightarrow> (ws \<times> json) list" where
  "new_sends s s' = drop (length (sent s)) (sent s')"

text \<open>
  Sample runs. Two sockets connect and socket 0 joins; then socket 1 joins and the two are
  paired; or socket 0, still waiting, reports \<open>connected\<close> and becomes a stale occupant.
\<close>

definition ex_wait :: "event list" where
  "ex_wait = [Connection origin_ok ''u0'', Connection origin_ok ''u1'',
              Message 0 (join_frame ''a'')]"

definition ex_pair :: "event list" where
  "ex_pair = ex_wait @ [Message 1 (join_frame ''b'')]"

definition ex_stale :: "event list" where
  "ex_stale = ex_wait @ [Message 0 connected_frame]"

definition ex_signal :: json where
  "ex_signal = JObj [(''type'', JStr ''signal''),
                     (''signal'', JObj [(''type'', JStr ''offer''), (''sdp'', JStr ''v=0'')])]"

text \<open>
  Three sockets: 0 and 1 are paired, 0 joins again and waits, 2 joins and is paired with 0.
\<close>

definition ex_rejoin :: "event list" where
  "ex_rejoin = [Connection origin_ok ''u0'', Connection origin_ok ''u1'',
                Connection origin_ok ''u2'',
                Message 0 (join_frame ''a''), Message 1 (join_frame ''b''),
                Message 0 (join_frame ''a''), Message 2 (join_frame ''c'')]"

text \<open>Sockets 0 and 1 are paired, then 0 joins again and waits.\<close>

definition ex_again :: "event list" where
  "ex_again = ex_pair @ [Message 0 (join_frame ''a'')]"

text \<open>A well-formed frame of a type the handler does not test for.\<close>

definition ex_ping :: json where
  "ex_ping = JObj [(''type'', JStr ''ping'')]"

text \<open>
  A handler that leads from \<open>s\<close> to \<open>s'\<close> only appends to the log, and every send it adds
  goes to a socket whose \<open>readyState\<close> is \<open>OPEN\<close>.
\<close>

definition guarded :: "server \<Rightarrow> server \<Rightarrow> bool" where
  "guarded s s' \<longleftrightarrow>
     sent s' = sent s @ new_sends s s' \<and>
     (\<forall>x \<in> set (new_sends s s'). readyState s (fst x) = WS_OPEN)"

text \<open>
  Frame texts and the values \<open>JSON.parse\<close> returns for them. The relation covers a part of
  what \<open>JSON.parse\<close> accepts: the three literals, integers below \<open>2^53\<close> written without
  sign or leading zero (doubles hold them exactly and print them the same), a one-digit
  mantissa with an exponent of 309 or more (beyond the largest double, hence
  \<open>Infinity\<close>), strings of printable ASCII without escapes, and objects written without
  white space whose keys differ and do not start with a digit (so that the order of the
  text is the order of enumeration). Every pair it relates is a text and its parse.
\<close>

definition digit :: "char \<Rightarrow> bool" where
  "digit c \<longleftrightarrow> c \<in> set ''0123456789''"

definition decimal :: "string \<Rightarrow> nat" where
  "decimal ds = foldl (\<lambda>n c. 10 * n + (of_char c - 48)) 0 ds"

definition plain :: "char \<Rightarrow> bool" where
  "plain c \<longleftrightarrow>
     (32::nat) \<le> of_char c \<and> of_char c \<le> (126::nat) \<and> c \<noteq> CHR 0x22 \<and> c \<noteq> CHR 0x5C"

definition plain_key :: "string \<Rightarrow> bool" where
  "plain_key k \<longleftrightarrow> list_all plain k \<and> (case k of [] \<Rightarrow> True | c # cs \<Rightarrow> \<not> digit c)"

inductive parses :: "string \<Rightarrow> json \<Rightarrow> bool"
  and parses_members :: "string \<Rightarrow> (string \<times> json) list \<Rightarrow> bool" where
  lit_null: "parses ''null'' JNull"
| lit_true: "parses ''true'' (JBool True)"
| lit_false: "parses ''false'' (JBool False)"
| zero: "parses ''0'' (JNum (Finite ''0''))"
| small_int: "digit d \<Longrightarrow> d \<noteq> CHR ''0'' \<Longrightarrow> list_all digit ds \<Longrightarrow>
     decimal (d # ds) < 2 ^ 53 \<Longrightarrow> parses (d # ds) (JNum (Finite (d # ds)))"
| overflow: "digit d \<Longrightarrow> d \<noteq> CHR ''0'' \<Longrightarrow> ds \<noteq> [] \<Longrightarrow> list_all digit ds \<Longrightarrow>
     309 \<le> decimal ds \<Longrightarrow> parses (d # CHR ''e'' # ds) (JNum PosInfinity)"
| str: "list_all plain cs \<Longrightarrow> parses (CHR 0x22 # cs @ [CHR 0x22]) (JStr cs)"
| empty_object: "parses ''{}'' (JObj [])"
| object: "parses_members ms kvs \<Longrightarrow> distinct (map fst kvs) \<Longrightarrow>
     parses (CHR ''{'' # ms @ ''}'') (JObj kvs)"
| last_member: "plain_key k \<Longrightarrow> parses t v \<Longrightarrow>
     parses_members (CHR 0x22 # k @ [CHR 0x22] @ '':'' @ t) [(k, v)]"
| member: "plain_key k \<Longrightarrow> parses t v \<Longrightarrow> parses_members ms kvs \<Longrightarrow>
     parses_members (CHR 0x22 # k @ [CHR 0x22] @ '':'' @ t @ '','' @ ms) ((k, v) # kvs)"

text \<open>The text of the sample signal frame, and a signal frame with a number that overflows.\<close>

definition ex_signal_text :: string where
  \<open>ex_signal_text = ''{"type":"signal","signal":{"type":"offer","sdp":"v=0"}}''\<close>

definition ex_overflow_text :: string where
  \<open>ex_overflow_text = ''{"type":"signal","n":1e999}''\<close>

definition ex_overflow :: json where
  "ex_overflow = JObj [(''type'', JStr ''signal''), (''n'', JNum PosInfinity)]"

text \<open>A well-formed frame of a type that no table of the protocol lists.\<close>

definition ex_bogus :: json where
  "ex_bogus = JObj [(''type'', JStr ''bogus'')]"

text \<open>The two logs agree: \<open>wire\<close> holds the serialised payloads of \<open>sent\<close>.\<close>

definition serialised :: "server \<Rightarrow> bool" where
  "serialised s \<longleftrightarrow> wire s = map (\<lambda>x. (fst x, JSON_stringify (snd x))) (sent s)"

text \<open>
  Partner linkage is reciprocal and never dangling: whoever an entry names as partner is
  registered and names it back.
\<close>

definition reciprocal :: "server \<Rightarrow> bool" where
  "reciprocal s \<longleftrightarrow>
     (\<forall>a ca b. clients s a = Some ca \<longrightarrow> partner ca = Some b \<longrightarrow>
        (\<exists>cb. clients s b = Some cb \<and> partner cb = Some a))"

text \<open>
  An event is a join from a connection that holds a partner; a run is free of such joins.
\<close>

definition rejoins :: "server \<Rightarrow> event \<Rightarrow> bool" where
  "rejoins s e =
     (case e of
        Message w (Parsed data) \<Rightarrow>
          get_prop data ''type'' = Some (JStr ''join'') \<and>
          (case clients s w of None \<Rightarrow> False | Some c \<Rightarrow> partner c \<noteq> None)
      | _ \<Rightarrow> False)"

fun rejoin_free :: "server \<Rightarrow> event list \<Rightarrow> bool" where
  "rejoin_free s [] = True"
| "rejoin_free s (e # evs) = (\<not> rejoins s e \<and> rejoin_free (step s e) evs)"

text \<open>
  What a run without such joins keeps: reciprocal linkage, no partner on a \<open>SEARCHING\<close>
  entry, and every registered socket allocated.
\<close>

definition linked :: "server \<Rightarrow> bool" where
  "linked s \<longleftrightarrow>
     reciprocal s \<and>
     (\<forall>a ca. clients s a = Some ca \<longrightarrow> state ca = SEARCHING \<longrightarrow> partner ca = None) \<and>
     (\<forall>a ca. clients s a = Some ca \<longrightarrow> a < next_ws s)"

section \<open>The branches of the handlers\<close>

lemmas run_defs = run_def init_def on_connection_def on_message_def handleJoin_def
  handleSignal_def handleDisconnect_def sendJSON_def ws_send_def join_frame_def
  connected_frame_def origin_ok_def ALLOWED_ORIGINS_def or_stranger_def matched_def
  partner_left_def error_reply_def Let_def

lemmas ex_defs = ex_wait_def ex_pair_def ex_stale_def ex_signal_def ex_rejoin_def ex_again_def
  ex_ping_def ex_bogus_def ex_overflow_def ex_signal_text_def ex_overflow_text_def

lemmas text_defs = quote_def escape_def hex_digit_def


lemma handleJoin_unregistered: "clients s w = None \<Longrightarrow> handleJoin s w nm = s"
  by (simp add: handleJoin_def)

lemma handleJoin_searching:
  "clients s w = Some c \<Longrightarrow> state c = SEARCHING \<Longrightarrow> handleJoin s w nm = s"
  by (simp add: handleJoin_def)

lemma handleJoin_empty_slot:
  assumes "clients s w = Some c" "state c \<noteq> SEARCHING" "waitingUser s = None"
  shows "handleJoin s w nm =
           s\<lparr>clients := (clients s)(w \<mapsto> c\<lparr>name := or_stranger nm, state := SEARCHING\<rparr>),
             waitingUser := Some w\<rparr>"
  using assms by (simp add: handleJoin_def Let_def)

lemma handleJoin_own_slot:
  assumes "clients s w = Some c" "state c \<noteq> SEARCHING" "waitingUser s = Some w"
  shows "handleJoin s w nm =
           s\<lparr>clients := (clients s)(w \<mapsto> c\<lparr>name := or_stranger nm, state := SEARCHING\<rparr>),
             waitingUser := Some w\<rparr>"
  using assms by (simp add: handleJoin_def Let_def)

lemma handleJoin_stale_slot:
  assumes "clients s w = Some c" "state c \<noteq> SEARCHING" "waitingUser s = Some p" "stale s p"
  shows "handleJoin s w nm =
           s\<lparr>clients := (clients s)(w \<mapsto> c\<lparr>name := or_stranger nm, state := SEARCHING\<rparr>),
             waitingUser := Some w\<rparr>"
proof (cases "p = w")
  case True
  then show ?thesis using assms(1,2,3) by (simp add: handleJoin_own_slot)
next
  case False
  then show ?thesis using assms
    by (cases "clients s p") (simp_all add: handleJoin_def Let_def stale_def)
qed

lemma handleJoin_pair:
  assumes "clients s w = Some c" "state c \<noteq> SEARCHING"
    and "waitingUser s = Some p" "p \<noteq> w" "clients s p = Some d" "state d = SEARCHING"
  shows "handleJoin s w nm =
           sendJSON (sendJSON
             (s\<lparr>waitingUser := None,
                clients := (clients s)
                   (w \<mapsto> c\<lparr>name := or_stranger nm, state := CONNECTING, partner := Some p\<rparr>,
                    p \<mapsto> d\<lparr>state := CONNECTING, partner := Some w\<rparr>)\<rparr>)
             w (matched True (name d))) p (matched False (or_stranger nm))"
  using assms by (simp add: handleJoin_def Let_def)

text \<open>The five ways through \<open>handleJoin\<close>.\<close>

lemma handleJoin_cases:
  obtains (unregistered) "clients s w = None"
  | (searching) c where "clients s w = Some c" "state c = SEARCHING"
  | (empty_slot) c where "clients s w = Some c" "state c \<noteq> SEARCHING" "waitingUser s = None"
  | (stale_slot) c p where "clients s w = Some c" "state c \<noteq> SEARCHING"
      "waitingUser s = Some p" "p = w \<or> stale s p"
  | (pair) c p d where "clients s w = Some c" "state c \<noteq> SEARCHING"
      "waitingUser s = Some p" "p \<noteq> w" "clients s p = Some d" "state d = SEARCHING"
proof (cases "clients s w")
  case None
  then show ?thesis by (rule unregistered)
next
  case (Some c)
  show ?thesis
  proof (cases "state c = SEARCHING")
    case True
    with Some show ?thesis by (rule searching)
  next
    case nosearch: False
    show ?thesis
    proof (cases "waitingUser s")
      case None
      with Some nosearch show ?thesis by (rule empty_slot)
    next
      case slot: (Some p)
      show ?thesis
      proof (cases "p \<noteq> w \<and> \<not> stale s p")
        case False
        then have "p = w \<or> stale s p" by simp
        with Some nosearch slot show ?thesis by (rule stale_slot)
      next
        case True
        then obtain d where "clients s p = Some d" "state d = SEARCHING"
          by (cases "clients s p") (simp_all add: stale_def)
        with Some nosearch slot True show ?thesis by (intro pair) simp_all
      qed
    qed
  qed
qed

lemma inv_init: "inv init"
  by (simp add: inv_def init_def)

lemma inv_on_connection: "inv s \<Longrightarrow> inv (on_connection s origin uuid)"
  by (auto simp: inv_def on_connection_def Let_def split: option.splits if_splits)

lemma inv_sendJSON: "inv (sendJSON s w payload) = inv s"
  by (simp add: inv_def sendJSON_def ws_send_def)

lemma inv_ws_send: "inv (ws_send s w payload) = inv s"
  by (simp add: inv_def ws_send_def)


lemma invI:
  assumes "\<And>x e. clients s x = Some e \<Longrightarrow> partner e \<noteq> Some x"
    and "\<And>x e. clients s x = Some e \<Longrightarrow> state e = SEARCHING \<Longrightarrow> waitingUser s = Some x"
  shows "inv s"
  using assms unfolding inv_def by blast

lemma inv_no_self: "inv s \<Longrightarrow> clients s x = Some e \<Longrightarrow> partner e \<noteq> Some x"
  unfolding inv_def by blast

lemma inv_searching: "inv s \<Longrightarrow> clients s x = Some e \<Longrightarrow> state e = SEARCHING \<Longrightarrow> waitingUser s = Some x"
  unfolding inv_def by blast

lemma inv_wait:
  assumes i: "inv s" and c: "clients s w = Some c"
    and only: "\<And>x e. clients s x = Some e \<Longrightarrow> state e = SEARCHING \<Longrightarrow> x = w"
  shows "inv (s\<lparr>clients := (clients s)(w \<mapsto> c\<lparr>name := n, state := SEARCHING\<rparr>),
                 waitingUser := Some w\<rparr>)"
proof (rule invI)
  fix x e
  assume e: "clients (s\<lparr>clients := (clients s)(w \<mapsto> c\<lparr>name := n, state := SEARCHING\<rparr>),
                 waitingUser := Some w\<rparr>) x = Some e"
  show "partner e \<noteq> Some x"
  proof (cases "x = w")
    case True
    then have "partner e = partner c" using e by auto
    then show ?thesis using inv_no_self [OF i c] True by simp
  next
    case False
    then have "clients s x = Some e" using e by simp
    then show ?thesis by (rule inv_no_self [OF i])
  qed
  assume se: "state e = SEARCHING"
  show "waitingUser (s\<lparr>clients := (clients s)(w \<mapsto> c\<lparr>name := n, state := SEARCHING\<rparr>),
                 waitingUser := Some w\<rparr>) = Some x"
  proof (cases "x = w")
    case True
    then show ?thesis by simp
  next
    case False
    then have "clients s x = Some e" using e by simp
    then have "x = w" using se by (rule only)
    then show ?thesis by simp
  qed
qed


lemma inv_pair:
  assumes i: "inv s" and c: "clients s w = Some c" and d: "clients s p = Some d" and ne: "p \<noteq> w"
    and only: "\<And>x e. clients s x = Some e \<Longrightarrow> state e = SEARCHING \<Longrightarrow> x = p"
  shows "inv (s\<lparr>waitingUser := None,
                clients := (clients s)
                   (w \<mapsto> c\<lparr>name := n, state := CONNECTING, partner := Some p\<rparr>,
                    p \<mapsto> d\<lparr>state := CONNECTING, partner := Some w\<rparr>)\<rparr>)"
    (is "inv ?t")
proof (rule invI)
  fix x e
  assume e: "clients ?t x = Some e"
  consider "x = p" | "x = w" | "x \<noteq> p" "x \<noteq> w" by blast
  then have "partner e \<noteq> Some x \<and> state e \<noteq> SEARCHING"
  proof cases
    case 1
    then have "e = d\<lparr>state := CONNECTING, partner := Some w\<rparr>" using e by simp
    then show ?thesis using 1 ne by simp
  next
    case 2
    then have "e = c\<lparr>name := n, state := CONNECTING, partner := Some p\<rparr>" using e ne by simp
    then show ?thesis using 2 ne by simp
  next
    case 3
    then have old: "clients s x = Some e" using e by simp
    then have "partner e \<noteq> Some x" by (rule inv_no_self [OF i])
    moreover have "state e \<noteq> SEARCHING" using only [OF old] 3 by blast
    ultimately show ?thesis by simp
  qed
  then show "partner e \<noteq> Some x" and "state e = SEARCHING \<Longrightarrow> waitingUser ?t = Some x"
    by simp_all
qed

lemma inv_handleJoin: "inv s \<Longrightarrow> inv (handleJoin s w nm)"
proof (cases s w rule: handleJoin_cases)
  case unregistered
  assume "inv s" then show ?thesis using unregistered by (simp add: handleJoin_unregistered)
next
  case (searching c)
  assume "inv s" then show ?thesis using searching by (simp add: handleJoin_searching)
next
  case (empty_slot c)
  assume i: "inv s"
  have only: "x = w" if "clients s x = Some e" "state e = SEARCHING" for x e
    using inv_searching [OF i that] empty_slot(3) by simp
  show ?thesis
    unfolding handleJoin_empty_slot [OF empty_slot]
    by (rule inv_wait [OF i empty_slot(1) only])
next
  case (stale_slot c p)
  assume i: "inv s"
  have eq: "handleJoin s w nm =
           s\<lparr>clients := (clients s)(w \<mapsto> c\<lparr>name := or_stranger nm, state := SEARCHING\<rparr>),
             waitingUser := Some w\<rparr>"
  proof (cases "p = w")
    case True
    then show ?thesis using stale_slot by (simp add: handleJoin_own_slot)
  next
    case False
    then show ?thesis using stale_slot by (simp add: handleJoin_stale_slot)
  qed
  have only: "x = w" if x: "clients s x = Some e" "state e = SEARCHING" for x e
  proof -
    have "x = p" using inv_searching [OF i x] stale_slot(3) by simp
    then show ?thesis using stale_slot(4) x by (auto simp: stale_def)
  qed
  show ?thesis
    unfolding eq by (rule inv_wait [OF i stale_slot(1) only])
next
  case (pair c p d)
  assume i: "inv s"
  have only: "x = p" if "clients s x = Some e" "state e = SEARCHING" for x e
    using inv_searching [OF i that] pair(3) by simp
  show ?thesis
    unfolding handleJoin_pair [OF pair] inv_sendJSON
    by (rule inv_pair [OF i pair(1) pair(5) pair(4) only])
qed

lemma inv_handleSignal: "inv s \<Longrightarrow> inv (handleSignal s w data)"
  by (simp add: handleSignal_def inv_sendJSON split: option.splits)


lemma handleDisconnect_unregistered: "clients s w = None \<Longrightarrow> handleDisconnect s w = s"
  by (simp add: handleDisconnect_def)

lemma handleDisconnect_clients:
  "clients s w = Some c \<Longrightarrow>
     clients (handleDisconnect s w) =
       (case partner c of
          None \<Rightarrow> clients s
        | Some p \<Rightarrow> (case clients s p of
                       None \<Rightarrow> clients s
                     | Some d \<Rightarrow> (clients s)(p \<mapsto> d\<lparr>partner := None\<rparr>)))(w := None)"
  by (simp add: handleDisconnect_def Let_def sendJSON_def ws_send_def split: option.splits)

lemma handleDisconnect_waitingUser:
  "clients s w = Some c \<Longrightarrow>
     waitingUser (handleDisconnect s w) = (if waitingUser s = Some w then None else waitingUser s)"
  by (simp add: handleDisconnect_def Let_def sendJSON_def ws_send_def split: option.splits)

lemma handleDisconnect_sent:
  "clients s w = Some c \<Longrightarrow>
     sent (handleDisconnect s w) =
       sent s @ (case partner c of
                   None \<Rightarrow> []
                 | Some p \<Rightarrow> (case clients s p of
                                None \<Rightarrow> []
                              | Some d \<Rightarrow> if readyState s p = WS_OPEN then [(p, partner_left)] else []))"
  by (simp add: handleDisconnect_def Let_def sendJSON_def ws_send_def split: option.splits)

lemma handleDisconnect_readyState: "readyState (handleDisconnect s w) = readyState s"
  by (simp add: handleDisconnect_def Let_def sendJSON_def ws_send_def split: option.splits)

lemma handleDisconnect_entry:
  assumes c: "clients s w = Some c" and e: "clients (handleDisconnect s w) x = Some e"
  shows "x \<noteq> w \<and> (\<exists>e0. clients s x = Some e0 \<and> state e = state e0 \<and>
            (partner e = partner e0 \<or> partner e = None))"
  using e unfolding handleDisconnect_clients [OF c]
  by (auto split: option.splits if_splits)

lemma inv_handleDisconnect:
  assumes i: "inv s"
  shows "inv (handleDisconnect s w)"
proof (cases "clients s w")
  case None
  then show ?thesis using i by (simp add: handleDisconnect_unregistered)
next
  case (Some c)
  show ?thesis
  proof (rule invI)
    fix x e
    assume "clients (handleDisconnect s w) x = Some e"
    from handleDisconnect_entry [OF Some this]
    obtain e0 where x: "x \<noteq> w" and e0: "clients s x = Some e0" "state e = state e0"
      and p: "partner e = partner e0 \<or> partner e = None"
      by blast
    show "partner e \<noteq> Some x"
      using p inv_no_self [OF i e0(1)] by auto
    show "waitingUser (handleDisconnect s w) = Some x" if "state e = SEARCHING"
    proof -
      have "waitingUser s = Some x" using inv_searching [OF i e0(1)] that e0(2) by simp
      then show ?thesis using x by (simp add: handleDisconnect_waitingUser [OF Some])
    qed
  qed
qed

lemma inv_connected:
  assumes i: "inv s" and c: "clients s w = Some c"
  shows "inv (s\<lparr>clients := (clients s)(w \<mapsto> c\<lparr>state := CONNECTED\<rparr>)\<rparr>)" (is "inv ?t")
proof (rule invI)
  fix x e
  assume e: "clients ?t x = Some e"
  have "\<exists>e0. clients s x = Some e0 \<and> partner e = partner e0 \<and> (state e = SEARCHING \<longrightarrow> state e0 = SEARCHING)"
    using e c by (cases "x = w") auto
  then obtain e0 where e0: "clients s x = Some e0" "partner e = partner e0"
      "state e = SEARCHING \<longrightarrow> state e0 = SEARCHING" by blast
  show "partner e \<noteq> Some x" using inv_no_self [OF i e0(1)] e0(2) by simp
  show "waitingUser ?t = Some x" if "state e = SEARCHING"
    using inv_searching [OF i e0(1)] e0(3) that by simp
qed

lemma inv_on_message: 
  assumes i: "inv s"
  shows "inv (on_message s w f)"
proof (cases f)
  case Unparseable
  then show ?thesis using i by (simp add: on_message_def inv_ws_send)
next
  case (Parsed data)
  show ?thesis
  proof (cases "clients s w")
    case None
    then show ?thesis using i Parsed by (simp add: on_message_def)
  next
    case (Some c)
    then show ?thesis using i Parsed
      by (simp add: on_message_def inv_ws_send inv_handleJoin inv_handleSignal inv_connected)
  qed
qed

lemma inv_readyState: "inv (s\<lparr>readyState := r\<rparr>) = inv s"
  by (simp add: inv_def)

lemma inv_step: "inv s \<Longrightarrow> inv (step s e)"
  by (cases e) (simp_all add: inv_on_connection inv_on_message inv_handleDisconnect inv_readyState)

lemma inv_foldl: "inv s \<Longrightarrow> inv (foldl step s evs)"
  by (induction evs arbitrary: s) (simp_all add: inv_step)

lemma inv_run: "inv (run evs)"
  by (simp add: run_def inv_foldl inv_init)

section \<open>The send log\<close>

lemma sent_sendJSON:
  "sent (sendJSON s w payload) = sent s @ (if readyState s w = WS_OPEN then [(w, payload)] else [])"
  by (simp add: sendJSON_def ws_send_def)

lemma clients_sendJSON: "clients (sendJSON s w payload) = clients s"
  by (simp add: sendJSON_def ws_send_def)

lemma waitingUser_sendJSON: "waitingUser (sendJSON s w payload) = waitingUser s"
  by (simp add: sendJSON_def ws_send_def)

lemma readyState_sendJSON: "readyState (sendJSON s w payload) = readyState s"
  by (simp add: sendJSON_def ws_send_def)

lemmas sendJSON_fields = sent_sendJSON clients_sendJSON waitingUser_sendJSON readyState_sendJSON

lemma guardedI:
  "sent s' = sent s @ xs \<Longrightarrow> (\<And>x. x \<in> set xs \<Longrightarrow> readyState s (fst x) = WS_OPEN) \<Longrightarrow> guarded s s'"
  by (simp add: guarded_def new_sends_def)

lemma guarded_refl: "guarded s s"
  by (rule guardedI [where xs = "[]"]) simp_all

lemma guarded_handleJoin: "guarded s (handleJoin s w nm)"
proof (cases s w rule: handleJoin_cases)
  case unregistered
  then show ?thesis by (simp add: handleJoin_unregistered guarded_refl)
next
  case (searching c)
  then show ?thesis by (simp add: handleJoin_searching guarded_refl)
next
  case (empty_slot c)
  show ?thesis
    by (rule guardedI [where xs = "[]"]) (simp_all add: handleJoin_empty_slot [OF empty_slot])
next
  case (stale_slot c p)
  have "sent (handleJoin s w nm) = sent s"
  proof (cases "p = w")
    case True
    then show ?thesis using stale_slot by (simp add: handleJoin_own_slot)
  next
    case False
    then show ?thesis using stale_slot by (simp add: handleJoin_stale_slot)
  qed
  then show ?thesis by (intro guardedI [where xs = "[]"]) simp_all
next
  case (pair c p d)
  show ?thesis
    by (rule guardedI [where xs =
          "(if readyState s w = WS_OPEN then [(w, matched True (name d))] else []) @
           (if readyState s p = WS_OPEN then [(p, matched False (or_stranger nm))] else [])"])
       (auto simp: handleJoin_pair [OF pair] sendJSON_fields split: if_splits)
qed

lemma guarded_handleSignal: "guarded s (handleSignal s w data)"
proof (cases "\<exists>c p. clients s w = Some c \<and> partner c = Some p \<and> readyState s p = WS_OPEN")
  case True
  then obtain c p where "clients s w = Some c" "partner c = Some p" "readyState s p = WS_OPEN"
    by blast
  then show ?thesis
    by (intro guardedI [where xs = "[(p, data)]"]) (simp_all add: handleSignal_def sendJSON_fields)
next
  case False
  then have "handleSignal s w data = s"
    by (auto simp: handleSignal_def split: option.splits)
  then show ?thesis by (simp add: guarded_refl)
qed

lemma guarded_handleDisconnect: "guarded s (handleDisconnect s w)"
proof (cases "clients s w")
  case None
  then show ?thesis by (simp add: handleDisconnect_unregistered guarded_refl)
next
  case (Some c)
  show ?thesis
    by (rule guardedI [OF handleDisconnect_sent [OF Some]]) (auto split: option.splits if_splits)
qed

lemma sends_of_guarded:
  "guarded s s' \<Longrightarrow>
     sent s' = sent s @ new_sends s s' \<and>
     (\<forall>x \<in> set (new_sends s s'). readyState s (fst x) = WS_OPEN \<or> x = (w, error_reply))"
  by (simp add: guarded_def)

lemma sends_of_ws_send:
  "sent (ws_send s w error_reply) = sent s @ new_sends s (ws_send s w error_reply) \<and>
   (\<forall>x \<in> set (new_sends s (ws_send s w error_reply)).
      readyState s (fst x) = WS_OPEN \<or> x = (w, error_reply))"
  by (simp add: new_sends_def ws_send_def)

lemma on_message_sends:
  "sent (on_message s w f) = sent s @ new_sends s (on_message s w f) \<and>
   (\<forall>x \<in> set (new_sends s (on_message s w f)).
      readyState s (fst x) = WS_OPEN \<or> x = (w, error_reply))"
proof (cases f)
  case Unparseable
  then show ?thesis using sends_of_ws_send [of s w] by (simp add: on_message_def)
next
  case (Parsed data)
  show ?thesis
  proof (cases "clients s w")
    case None
    then show ?thesis using Parsed sends_of_guarded [OF guarded_refl, of s w]
      by (simp add: on_message_def)
  next
    case (Some c)
    have same: "guarded s (s\<lparr>clients := (clients s)(w \<mapsto> c\<lparr>state := CONNECTED\<rparr>)\<rparr>)"
      by (rule guardedI [where xs = "[]"]) simp_all
    show ?thesis
      unfolding Parsed on_message_def
      using Some sends_of_ws_send [of s w]
        sends_of_guarded [OF guarded_handleJoin, of s w "get_prop data ''name''" w]
        sends_of_guarded [OF guarded_handleSignal, of s w data w]
        sends_of_guarded [OF same, of w] sends_of_guarded [OF guarded_refl, of s w]
      by simp
  qed
qed

section \<open>Linkage in runs where no paired connection joins\<close>

lemma linkedI:
  assumes "\<And>a ca b. clients s a = Some ca \<Longrightarrow> partner ca = Some b \<Longrightarrow>
             \<exists>cb. clients s b = Some cb \<and> partner cb = Some a"
    and "\<And>a ca. clients s a = Some ca \<Longrightarrow> state ca = SEARCHING \<Longrightarrow> partner ca = None"
    and "\<And>a ca. clients s a = Some ca \<Longrightarrow> a < next_ws s"
  shows "linked s"
  using assms unfolding linked_def reciprocal_def by blast

lemma linked_back:
  "linked s \<Longrightarrow> clients s a = Some ca \<Longrightarrow> partner ca = Some b \<Longrightarrow>
     \<exists>cb. clients s b = Some cb \<and> partner cb = Some a"
  unfolding linked_def reciprocal_def by blast

lemma linked_searching:
  "linked s \<Longrightarrow> clients s a = Some ca \<Longrightarrow> state ca = SEARCHING \<Longrightarrow> partner ca = None"
  unfolding linked_def by blast

lemma linked_allocated: "linked s \<Longrightarrow> clients s a = Some ca \<Longrightarrow> a < next_ws s"
  unfolding linked_def by blast

lemma linked_unreferenced:
  assumes l: "linked s" and c: "clients s w = Some c" "partner c = None"
    and a: "clients s a = Some ca"
  shows "partner ca \<noteq> Some w"
proof
  assume "partner ca = Some w"
  from linked_back [OF l a this] c show False by auto
qed

lemma linked_init: "linked init"
  by (rule linkedI) (simp_all add: init_def)

lemma linked_cong:
  assumes "linked s" "clients t = clients s" "next_ws t = next_ws s"
  shows "linked t"
  using assms unfolding linked_def reciprocal_def by simp

lemma linked_on_connection:
  assumes l: "linked s"
  shows "linked (on_connection s origin uuid)"
proof (cases "\<exists>orig. origin = Some orig \<and> orig \<in> set ALLOWED_ORIGINS")
  case False
  then have "clients (on_connection s origin uuid) = clients s"
      "next_ws (on_connection s origin uuid) = Suc (next_ws s)"
    by (auto simp: on_connection_def Let_def split: option.splits)
  then show ?thesis using l unfolding linked_def reciprocal_def by (auto simp: less_Suc_eq)
next
  case True
  let ?n = "next_ws s"
  let ?fresh = "\<lparr>cid = uuid, name = JStr ''Anonymous'', state = IDLE, partner = None\<rparr>"
  from True have cl: "clients (on_connection s origin uuid) = (clients s)(?n \<mapsto> ?fresh)"
    and nx: "next_ws (on_connection s origin uuid) = Suc ?n"
    by (auto simp: on_connection_def Let_def)
  have new: "clients s ?n = None"
    using linked_allocated [OF l, of ?n] by (cases "clients s ?n") auto
  show ?thesis
  proof (rule linkedI)
    fix a ca b
    assume a: "clients (on_connection s origin uuid) a = Some ca" and p: "partner ca = Some b"
    then have an: "a \<noteq> ?n" unfolding cl by auto
    then have a': "clients s a = Some ca" using a unfolding cl by simp
    from linked_back [OF l a' p] obtain cb where cb: "clients s b = Some cb" "partner cb = Some a"
      by blast
    then have "b \<noteq> ?n" using new by auto
    then show "\<exists>cb. clients (on_connection s origin uuid) b = Some cb \<and> partner cb = Some a"
      using cb unfolding cl by simp
  next
    fix a ca
    assume a: "clients (on_connection s origin uuid) a = Some ca" and st: "state ca = SEARCHING"
    then have an: "a \<noteq> ?n" unfolding cl by auto
    then have a': "clients s a = Some ca" using a unfolding cl by simp
    then show "partner ca = None" using st by (rule linked_searching [OF l])
  next
    fix a ca
    assume a: "clients (on_connection s origin uuid) a = Some ca"
    show "a < next_ws (on_connection s origin uuid)"
    proof (cases "a = ?n")
      case True
      then show ?thesis by (simp add: nx)
    next
      case False
      then have "clients s a = Some ca" using a unfolding cl by simp
      then show ?thesis using linked_allocated [OF l] by (simp add: nx less_Suc_eq)
    qed
  qed
qed


lemma linked_same_partners:
  assumes l: "linked s" and nx: "next_ws t = next_ws s"
    and same: "\<And>a. map_option partner (clients t a) = map_option partner (clients s a)"
    and se: "\<And>a ca. clients t a = Some ca \<Longrightarrow> state ca = SEARCHING \<Longrightarrow> partner ca = None"
  shows "linked t"
proof (rule linkedI)
  fix a ca b
  assume a: "clients t a = Some ca" and p: "partner ca = Some b"
  then obtain ca0 where a0: "clients s a = Some ca0" "partner ca0 = Some b"
    using same [of a] by (cases "clients s a") auto
  from linked_back [OF l a0] obtain cb0 where b0: "clients s b = Some cb0" "partner cb0 = Some a"
    by blast
  then show "\<exists>cb. clients t b = Some cb \<and> partner cb = Some a"
    using same [of b] by (cases "clients t b") auto
next
  fix a ca
  assume "clients t a = Some ca" "state ca = SEARCHING"
  then show "partner ca = None" by (rule se)
next
  fix a ca
  assume "clients t a = Some ca"
  then obtain ca0 where "clients s a = Some ca0"
    using same [of a] by (cases "clients s a") auto
  then show "a < next_ws t" using linked_allocated [OF l] nx by simp
qed

lemma linked_sendJSON: "linked (sendJSON s w payload) = linked s"
  by (simp add: linked_def reciprocal_def sendJSON_def ws_send_def)

lemma linked_ws_send: "linked (ws_send s w payload) = linked s"
  by (simp add: linked_def reciprocal_def ws_send_def)

lemma linked_restate:
  assumes l: "linked s" and c: "clients s w = Some c"
    and se: "st = SEARCHING \<Longrightarrow> partner c = None"
  shows "linked (s\<lparr>clients := (clients s)(w \<mapsto> c\<lparr>name := n, state := st\<rparr>), waitingUser := x\<rparr>)"
proof (rule linked_same_partners [OF l])
  fix a ca
  assume "clients (s\<lparr>clients := (clients s)(w \<mapsto> c\<lparr>name := n, state := st\<rparr>), waitingUser := x\<rparr>) a
            = Some ca" "state ca = SEARCHING"
  then show "partner ca = None"
    using se linked_searching [OF l, of a ca] by (cases "a = w") auto
qed (simp_all add: c)

lemma linked_pair:
  assumes l: "linked s" and c: "clients s w = Some c" "partner c = None"
    and d: "clients s p = Some d" "partner d = None" and ne: "p \<noteq> w"
  shows "linked (s\<lparr>waitingUser := None,
                clients := (clients s)
                   (w \<mapsto> c\<lparr>name := n, state := CONNECTING, partner := Some p\<rparr>,
                    p \<mapsto> d\<lparr>state := CONNECTING, partner := Some w\<rparr>)\<rparr>)"
    (is "linked ?t")
proof (rule linkedI)
  fix a ca b
  assume a: "clients ?t a = Some ca" and pa: "partner ca = Some b"
  consider "a = p" | "a = w" | "a \<noteq> p" "a \<noteq> w" by blast
  then show "\<exists>cb. clients ?t b = Some cb \<and> partner cb = Some a"
  proof cases
    case 1
    then have "b = w" using a pa by auto
    then show ?thesis using 1 ne by simp
  next
    case 2
    then have "b = p" using a pa ne by auto
    then show ?thesis using 2 by simp
  next
    case 3
    then have old: "clients s a = Some ca" using a by simp
    from linked_back [OF l old pa] obtain cb where cb: "clients s b = Some cb" "partner cb = Some a"
      by blast
    then have "b \<noteq> w" "b \<noteq> p" using c d by auto
    then show ?thesis using cb by simp
  qed
next
  fix a ca
  assume a: "clients ?t a = Some ca" and st: "state ca = SEARCHING"
  then have "a \<noteq> p" "a \<noteq> w" using ne by auto
  then have "clients s a = Some ca" using a by simp
  then show "partner ca = None" using st by (rule linked_searching [OF l])
next
  fix a ca
  assume a: "clients ?t a = Some ca"
  then have "\<exists>e. clients s a = Some e" using c d by (cases "a = p"; cases "a = w") auto
  then show "a < next_ws ?t" using linked_allocated [OF l] by auto
qed

lemma linked_handleJoin:
  assumes l: "linked s" and free: "\<And>c. clients s w = Some c \<Longrightarrow> partner c = None"
  shows "linked (handleJoin s w nm)"
proof (cases s w rule: handleJoin_cases)
  case unregistered
  then show ?thesis using l by (simp add: handleJoin_unregistered)
next
  case (searching c)
  then show ?thesis using l by (simp add: handleJoin_searching)
next
  case (empty_slot c)
  show ?thesis
    unfolding handleJoin_empty_slot [OF empty_slot]
    by (rule linked_restate [OF l empty_slot(1) free [OF empty_slot(1)]])
next
  case (stale_slot c p)
  have eq: "handleJoin s w nm =
           s\<lparr>clients := (clients s)(w \<mapsto> c\<lparr>name := or_stranger nm, state := SEARCHING\<rparr>),
             waitingUser := Some w\<rparr>"
  proof (cases "p = w")
    case True
    then show ?thesis using stale_slot by (simp add: handleJoin_own_slot)
  next
    case False
    then show ?thesis using stale_slot by (simp add: handleJoin_stale_slot)
  qed
  show ?thesis
    unfolding eq by (rule linked_restate [OF l stale_slot(1) free [OF stale_slot(1)]])
next
  case (pair c p d)
  have "partner d = None" using linked_searching [OF l pair(5,6)] .
  then show ?thesis
    unfolding handleJoin_pair [OF pair] linked_sendJSON
    by (intro linked_pair [OF l pair(1) free [OF pair(1)] pair(5) _ pair(4)])
qed

lemma linked_handleSignal: "linked s \<Longrightarrow> linked (handleSignal s w data)"
  by (simp add: handleSignal_def linked_sendJSON split: option.splits)

lemma handleDisconnect_next_ws: "next_ws (handleDisconnect s w) = next_ws s"
  by (simp add: handleDisconnect_def Let_def sendJSON_def ws_send_def split: option.splits)

lemma linked_handleDisconnect:
  assumes l: "linked s"
  shows "linked (handleDisconnect s w)"
proof (cases "clients s w")
  case None
  then show ?thesis using l by (simp add: handleDisconnect_unregistered)
next
  case (Some c)
  note cl = handleDisconnect_clients [OF Some]
  have gone: "clients (handleDisconnect s w) w = None" by (simp add: cl)
  have cleared: "partner e = None"
    if "partner c = Some a" "clients (handleDisconnect s w) a = Some e" for a e
  proof -
    have "a \<noteq> w" using that(2) gone by auto
    moreover from linked_back [OF l Some that(1)] obtain d where "clients s a = Some d"
      by blast
    ultimately show ?thesis using that by (auto simp: cl)
  qed
  have kept: "clients (handleDisconnect s w) a = clients s a"
    if "a \<noteq> w" "partner c \<noteq> Some a" for a
    using that by (simp add: cl split: option.splits)
  show ?thesis
  proof (rule linkedI)
    fix a ca b
    assume a: "clients (handleDisconnect s w) a = Some ca" and pa: "partner ca = Some b"
    have aw: "a \<noteq> w" using a gone by auto
    have ap: "partner c \<noteq> Some a" using cleared [OF _ a] pa by auto
    then have old: "clients s a = Some ca" using a kept [OF aw] by simp
    from linked_back [OF l old pa] obtain cb where cb: "clients s b = Some cb" "partner cb = Some a"
      by blast
    have bw: "b \<noteq> w" using cb Some ap by auto
    have "partner c \<noteq> Some b"
    proof
      assume "partner c = Some b"
      from linked_back [OF l Some this] cb aw show False by auto
    qed
    then show "\<exists>cb. clients (handleDisconnect s w) b = Some cb \<and> partner cb = Some a"
      using cb kept [OF bw] by simp
  next
    fix a ca
    assume a: "clients (handleDisconnect s w) a = Some ca" and st: "state ca = SEARCHING"
    from handleDisconnect_entry [OF Some a]
    obtain e0 where e0: "clients s a = Some e0" "state ca = state e0"
      "partner ca = partner e0 \<or> partner ca = None" by blast
    then show "partner ca = None" using linked_searching [OF l e0(1)] st by auto
  next
    fix a ca
    assume a: "clients (handleDisconnect s w) a = Some ca"
    from handleDisconnect_entry [OF Some a] obtain e0 where "clients s a = Some e0" by blast
    then show "a < next_ws (handleDisconnect s w)"
      using linked_allocated [OF l] by (simp add: handleDisconnect_next_ws)
  qed
qed

lemma linked_readyState: "linked (s\<lparr>readyState := r\<rparr>) = linked s"
  by (simp add: linked_def reciprocal_def)

lemma linked_step:
  assumes l: "linked s" and nr: "\<not> rejoins s e"
  shows "linked (step s e)"
proof (cases e)
  case (Connection origin uuid)
  then show ?thesis using l by (simp add: linked_on_connection)
next
  case (Message w f)
  show ?thesis
  proof (cases f)
    case Unparseable
    then show ?thesis using l Message by (simp add: on_message_def linked_ws_send)
  next
    case (Parsed data)
    show ?thesis
    proof (cases "clients s w")
      case None
      then show ?thesis using l Message Parsed by (simp add: on_message_def)
    next
      case (Some c)
      have j: "linked (handleJoin s w (get_prop data ''name''))"
        if "get_prop data ''type'' = Some (JStr ''join'')"
      proof (rule linked_handleJoin [OF l])
        fix c' assume "clients s w = Some c'"
        then show "partner c' = None"
          using nr that Message Parsed by (simp add: rejoins_def)
      qed
      have k: "linked (s\<lparr>clients := (clients s)(w \<mapsto> c\<lparr>state := CONNECTED\<rparr>)\<rparr>)"
        using linked_restate [OF l Some, where st = CONNECTED and n = "name c" and x = "waitingUser s"]
        by simp
      show ?thesis using l Message Parsed Some j k
        by (simp add: on_message_def linked_ws_send linked_handleSignal)
    qed
  qed
next
  case (Close w)
  then show ?thesis using l by (simp add: linked_handleDisconnect linked_readyState)
next
  case (Transport w r)
  then show ?thesis using l by (simp add: linked_readyState)
qed

lemma linked_foldl: "linked s \<Longrightarrow> rejoin_free s evs \<Longrightarrow> linked (foldl step s evs)"
  by (induction evs arbitrary: s) (simp_all add: linked_step)

lemma reciprocal_without_rejoin: "rejoin_free init evs \<Longrightarrow> reciprocal (run evs)"
  using linked_foldl [OF linked_init, of evs] by (simp add: run_def linked_def)

lemma ex_pair_rejoin_free: "rejoin_free init ex_pair"
  by (simp add: rejoins_def ex_defs run_defs)

lemma ex_rejoin_not_rejoin_free: "\<not> rejoin_free init ex_rejoin"
  by (simp add: rejoins_def ex_defs run_defs)

lemma ex_rejoin_not_reciprocal: "\<not> reciprocal (run ex_rejoin)"
proof
  assume r: "reciprocal (run ex_rejoin)"
  have 1: "clients (run ex_rejoin) 1 =
             Some \<lparr>cid = ''u1'', name = JStr ''b'', state = CONNECTING, partner = Some 0\<rparr>"
    by (simp add: ex_defs run_defs)
  have 0: "map_option partner (clients (run ex_rejoin) 0) = Some (Some 2)"
    by (simp add: ex_defs run_defs)
  from r 1 have "\<exists>cb. clients (run ex_rejoin) 0 = Some cb \<and> partner cb = Some 1"
    unfolding reciprocal_def by fastforce
  then show False using 0 by auto
qed

lemma ex_pair_reciprocal: "reciprocal (run ex_pair)"
  using reciprocal_without_rejoin [OF ex_pair_rejoin_free] .

section \<open>The texts sent\<close>

lemma serialised_cong:
  "sent t = sent s \<Longrightarrow> wire t = wire s \<Longrightarrow> serialised t = serialised s"
  by (simp add: serialised_def)

lemma serialised_ws_send: "serialised s \<Longrightarrow> serialised (ws_send s w payload)"
  by (simp add: serialised_def ws_send_def)

lemma serialised_sendJSON: "serialised s \<Longrightarrow> serialised (sendJSON s w payload)"
  by (simp add: sendJSON_def serialised_ws_send)

lemma serialised_handleJoin: "serialised s \<Longrightarrow> serialised (handleJoin s w nm)"
proof (cases s w rule: handleJoin_cases)
  case unregistered
  assume "serialised s" then show ?thesis using unregistered by (simp add: handleJoin_unregistered)
next
  case (searching c)
  assume "serialised s" then show ?thesis using searching by (simp add: handleJoin_searching)
next
  case (empty_slot c)
  assume "serialised s" then show ?thesis
    by (simp add: handleJoin_empty_slot [OF empty_slot] serialised_def)
next
  case (stale_slot c p)
  assume s: "serialised s"
  have "handleJoin s w nm =
           s\<lparr>clients := (clients s)(w \<mapsto> c\<lparr>name := or_stranger nm, state := SEARCHING\<rparr>),
             waitingUser := Some w\<rparr>"
  proof (cases "p = w")
    case True
    then show ?thesis using stale_slot by (simp add: handleJoin_own_slot)
  next
    case False
    then show ?thesis using stale_slot by (simp add: handleJoin_stale_slot)
  qed
  then show ?thesis using s by (simp add: serialised_def)
next
  case (pair c p d)
  assume s: "serialised s"
  show ?thesis
    unfolding handleJoin_pair [OF pair]
    by (intro serialised_sendJSON) (use s in \<open>simp add: serialised_def\<close>)
qed

lemma serialised_handleSignal: "serialised s \<Longrightarrow> serialised (handleSignal s w data)"
  by (simp add: handleSignal_def serialised_sendJSON split: option.splits)

lemma serialised_handleDisconnect: "serialised s \<Longrightarrow> serialised (handleDisconnect s w)"
  by (simp add: handleDisconnect_def Let_def sendJSON_def ws_send_def serialised_def
      split: option.splits)

lemma serialised_on_message: "serialised s \<Longrightarrow> serialised (on_message s w f)"
  by (cases f)
    (simp_all add: on_message_def serialised_ws_send serialised_handleJoin
      serialised_handleSignal serialised_def [of "s\<lparr>clients := _\<rparr>"] split: option.splits,
     simp add: serialised_def)

lemma serialised_step: "serialised s \<Longrightarrow> serialised (step s e)"
proof (cases e)
  case (Connection origin uuid)
  assume "serialised s" then show ?thesis using Connection
    by (simp add: on_connection_def Let_def serialised_def split: option.splits)
next
  case (Message w f)
  assume "serialised s" then show ?thesis using Message by (simp add: serialised_on_message)
next
  case (Close w)
  assume "serialised s"
  then have "serialised (s\<lparr>readyState := (readyState s)(w := WS_CLOSED)\<rparr>)"
    by (simp add: serialised_def)
  then show ?thesis using Close by (simp add: serialised_handleDisconnect)
next
  case (Transport w r)
  assume "serialised s" then show ?thesis using Transport by (simp add: serialised_def)
qed

lemma serialised_foldl: "serialised s \<Longrightarrow> serialised (foldl step s evs)"
  by (induction evs arbitrary: s) (simp_all add: serialised_step)

lemma wire_run: "wire (run evs) = map (\<lambda>x. (fst x, JSON_stringify (snd x))) (sent (run evs))"
  using serialised_foldl [of init evs] by (simp add: run_def serialised_def init_def)

section \<open>Sample frames and their texts\<close>

lemma parses_offer:
  \<open>parses ''{"type":"offer","sdp":"v=0"}'' (JObj [(''type'', JStr ''offer''), (''sdp'', JStr ''v=0'')])\<close>
proof -
  have v: \<open>parses ''"v=0"'' (JStr ''v=0'')\<close>
    using parses_parses_members.str [of "''v=0''"] by (simp add: plain_def)
  have o: \<open>parses ''"offer"'' (JStr ''offer'')\<close>
    using parses_parses_members.str [of "''offer''"] by (simp add: plain_def)
  have m2: \<open>parses_members ''"sdp":"v=0"'' [(''sdp'', JStr ''v=0'')]\<close>
    using parses_parses_members.last_member [OF _ v, of "''sdp''"]
    by (simp add: plain_key_def plain_def digit_def)
  have m1: \<open>parses_members ''"type":"offer","sdp":"v=0"''
              [(''type'', JStr ''offer''), (''sdp'', JStr ''v=0'')]\<close>
    using parses_parses_members.member [OF _ o m2, of "''type''"]
    by (simp add: plain_key_def plain_def digit_def)
  show ?thesis
    using parses_parses_members.object [OF m1] by simp
qed

lemma parses_ex_signal: "parses ex_signal_text ex_signal"
proof -
  have t: \<open>parses ''"signal"'' (JStr ''signal'')\<close>
    using parses_parses_members.str [of "''signal''"] by (simp add: plain_def)
  have m2: \<open>parses_members ''"signal":{"type":"offer","sdp":"v=0"}''
              [(''signal'', JObj [(''type'', JStr ''offer''), (''sdp'', JStr ''v=0'')])]\<close>
    using parses_parses_members.last_member [OF _ parses_offer, of "''signal''"]
    by (simp add: plain_key_def plain_def digit_def)
  have m1: \<open>parses_members ''"type":"signal","signal":{"type":"offer","sdp":"v=0"}''
              [(''type'', JStr ''signal''),
               (''signal'', JObj [(''type'', JStr ''offer''), (''sdp'', JStr ''v=0'')])]\<close>
    using parses_parses_members.member [OF _ t m2, of "''type''"]
    by (simp add: plain_key_def plain_def digit_def)
  show ?thesis
    using parses_parses_members.object [OF m1] by (simp add: ex_defs)
qed

lemma parses_ex_overflow: "parses ex_overflow_text ex_overflow"
proof -
  have n: "parses ''1e999'' (JNum PosInfinity)"
    by (rule parses_parses_members.overflow) (simp_all add: digit_def decimal_def)
  have t: \<open>parses ''"signal"'' (JStr ''signal'')\<close>
    using parses_parses_members.str [of "''signal''"] by (simp add: plain_def)
  have m2: \<open>parses_members ''"n":1e999'' [(''n'', JNum PosInfinity)]\<close>
    using parses_parses_members.last_member [OF _ n, of "''n''"]
    by (simp add: plain_key_def plain_def digit_def)
  have m1: \<open>parses_members ''"type":"signal","n":1e999''
              [(''type'', JStr ''signal''), (''n'', JNum PosInfinity)]\<close>
    using parses_parses_members.member [OF _ t m2, of "''type''"]
    by (simp add: plain_key_def plain_def digit_def)
  show ?thesis
    using parses_parses_members.object [OF m1] by (simp add: ex_defs)
qed

text \<open>
  A join from a paired connection whose former partner has itself joined again and waits:
  the two are paired with each other once more.
\<close>

lemma rejoin_meets_waiting_former_partner:
  assumes c: "clients (run evs) w = Some c"
    and st: "state c = CONNECTING \<or> state c = CONNECTED"
    and q: "partner c = Some q"
    and d: "clients (run evs) q = Some d" "state d = SEARCHING"
  shows "clients (handleJoin (run evs) w nm) q =
           Some (d\<lparr>state := CONNECTING, partner := Some w\<rparr>) \<and>
         sent (handleJoin (run evs) w nm) =
           sent (run evs)
             @ (if readyState (run evs) w = WS_OPEN then [(w, matched True (name d))] else [])
             @ (if readyState (run evs) q = WS_OPEN
                then [(q, matched False (or_stranger nm))] else [])"
proof -
  have qw: "q \<noteq> w" using inv_no_self [OF inv_run c] q by auto
  have ns: "state c \<noteq> SEARCHING" using st by auto
  have slot: "waitingUser (run evs) = Some q" using inv_searching [OF inv_run d] .
  show ?thesis
    unfolding handleJoin_pair [OF c ns slot qw d]
    using qw by (simp add: sendJSON_fields)
qed

section \<open>Claims\<close>

subsection \<open>C1\<close>

text \<open>
  C1 (partner linkage reciprocal after every operation) fails on the code. In the run
  \<open>ex_rejoin\<close> socket 0, paired with 1, joins again and is paired with 2: the entry of 1
  still names 0, whose entry names 2. When 1 then closes, \<open>handleDisconnect\<close> clears the
  partner of 0 and sends it \<open>partner-left\<close>, and the entry of 2 is left naming 0.
  Runs in which no connection joins while it holds a partner keep the linkage reciprocal
  (\<open>reciprocal_without_rejoin\<close>); \<open>handleJoin\<close> does not release the pairing of a
  connection that joins again, as \<open>handleDisconnect\<close> does for one that leaves.
\<close>

theorem rejoin_leaves_one_sided_link:
  "map_option partner (clients (run ex_rejoin) 1) = Some (Some 0) \<and>
   map_option partner (clients (run ex_rejoin) 0) = Some (Some 2) \<and>
   map_option partner (clients (run ex_rejoin) 2) = Some (Some 0) \<and>
   map_option partner (clients (run (ex_rejoin @ [Close 1])) 0) = Some None \<and>
   map_option partner (clients (run (ex_rejoin @ [Close 1])) 2) = Some (Some 0) \<and>
   sent (run (ex_rejoin @ [Close 1])) = sent (run ex_rejoin) @ [(0, partner_left)]"
  by (simp add: ex_defs run_defs)

subsection \<open>C2\<close>

text \<open>
  C2 as stated fails: when socket 1 joins while socket 0 waits, the waiting socket 0 is sent
  \<open>initiator: false\<close> and the arriving socket 1 \<open>initiator: true\<close>; and when the transport
  of the waiting socket is not open, it is sent nothing.
\<close>

theorem waiting_side_is_not_initiator:
  "waitingUser (run ex_wait) = Some 0 \<and>
   sent (run ex_wait) = [] \<and>
   sent (step (run ex_wait) (Message 1 (join_frame ''b''))) =
     [(1, matched True (JStr ''a'')), (0, matched False (JStr ''b''))] \<and>
   sent (step (run (ex_wait @ [Transport 0 WS_CLOSING])) (Message 1 (join_frame ''b''))) =
     [(1, matched True (JStr ''a''))]"
  by (simp add: ex_defs run_defs)

text \<open>
  C2, amended. When a join pairs the arriving connection \<open>w\<close> with the waiting connection
  \<open>p\<close>, the sends added are, in this order and each only if the recipient's transport is
  open: \<open>matched\<close> to \<open>w\<close> with \<open>initiator: true\<close> and the name of \<open>p\<close>, and \<open>matched\<close> to
  \<open>p\<close> with \<open>initiator: false\<close> and the name that \<open>w\<close> has just joined with. The two
  entries name each other as partner.
\<close>

theorem pairing_notifications:
  assumes "clients s w = Some c" "state c \<noteq> SEARCHING"
    and "waitingUser s = Some p" "p \<noteq> w" "clients s p = Some d" "state d = SEARCHING"
  shows "sent (handleJoin s w nm) =
           sent s @ (if readyState s w = WS_OPEN then [(w, matched True (name d))] else [])
                  @ (if readyState s p = WS_OPEN then [(p, matched False (or_stranger nm))] else []) \<and>
         map_option partner (clients (handleJoin s w nm) w) = Some (Some p) \<and>
         map_option partner (clients (handleJoin s w nm) p) = Some (Some w) \<and>
         map_option name (clients (handleJoin s w nm) w) = Some (or_stranger nm) \<and>
         map_option name (clients (handleJoin s w nm) p) = Some (name d)"
  unfolding handleJoin_pair [OF assms]
  using assms(4) by (simp add: sendJSON_fields)

text \<open>The amended C2 at the run \<open>ex_wait\<close>, where socket 1 joins and meets socket 0.\<close>

theorem pairing_notifications_witness:
  "sent (handleJoin (run ex_wait) 1 (Some (JStr ''b''))) =
     [(1, matched True (JStr ''a'')), (0, matched False (JStr ''b''))]"
proof -
  have c: "clients (run ex_wait) 1 =
             Some \<lparr>cid = ''u1'', name = JStr ''Anonymous'', state = IDLE, partner = None\<rparr>"
    by (simp add: ex_defs run_defs)
  have d: "clients (run ex_wait) 0 =
             Some \<lparr>cid = ''u0'', name = JStr ''a'', state = SEARCHING, partner = None\<rparr>"
    by (simp add: ex_defs run_defs)
  have w: "waitingUser (run ex_wait) = Some 0"
    by (simp add: ex_defs run_defs)
  have r: "readyState (run ex_wait) 0 = WS_OPEN" "readyState (run ex_wait) 1 = WS_OPEN"
      "sent (run ex_wait) = []"
    by (simp_all add: ex_defs run_defs)
  show ?thesis
    using pairing_notifications [OF c _ w _ d, of "Some (JStr ''b'')"] r
    by (simp add: or_stranger_def)
qed

subsection \<open>C3\<close>

text \<open>
  C3. After every sequence of events (joins among them), no registered connection has itself
  as partner; \<open>waitingUser\<close> holds at most one connection; and every registered connection
  in state \<open>SEARCHING\<close> is that one occupant.
\<close>

theorem no_self_pairing_one_waiting:
  "(\<forall>w c. clients (run evs) w = Some c \<longrightarrow> partner c \<noteq> Some w) \<and>
   card {w. waitingUser (run evs) = Some w} \<le> 1 \<and>
   (\<forall>w c. clients (run evs) w = Some c \<longrightarrow> state c = SEARCHING \<longrightarrow>
            waitingUser (run evs) = Some w)"
proof -
  have "card {w. waitingUser (run evs) = Some w} \<le> 1"
    by (cases "waitingUser (run evs)") simp_all
  then show ?thesis
    using inv_no_self [OF inv_run] inv_searching [OF inv_run] by blast
qed

text \<open>C3 at the paired run and at the waiting run.\<close>

theorem no_self_pairing_one_waiting_witness:
  "clients (run ex_pair) 0 =
     Some \<lparr>cid = ''u0'', name = JStr ''a'', state = CONNECTING, partner = Some 1\<rparr> \<and>
   partner \<lparr>cid = ''u0'', name = JStr ''a'', state = CONNECTING, partner = Some 1\<rparr> \<noteq> Some 0 \<and>
   clients (run ex_wait) 0 =
     Some \<lparr>cid = ''u0'', name = JStr ''a'', state = SEARCHING, partner = None\<rparr> \<and>
   waitingUser (run ex_wait) = Some 0"
proof -
  have c: "clients (run ex_pair) 0 =
             Some \<lparr>cid = ''u0'', name = JStr ''a'', state = CONNECTING, partner = Some 1\<rparr>"
    by (simp add: ex_defs run_defs)
  have c': "clients (run ex_wait) 0 =
             Some \<lparr>cid = ''u0'', name = JStr ''a'', state = SEARCHING, partner = None\<rparr>"
    by (simp add: ex_defs run_defs)
  show ?thesis
    using no_self_pairing_one_waiting [of ex_pair] no_self_pairing_one_waiting [of ex_wait] c c'
    by simp
qed

subsection \<open>C4\<close>

text \<open>
  C4 as stated fails: sockets 0 and 1 are paired, the transport of 1 is closing, and 0
  closes. The log after the \<open>close\<close> event holds the two \<open>matched\<close> messages and no
  \<open>partner-left\<close>.
\<close>

theorem closed_partner_gets_no_partner_left:
  "map_option partner (clients (run (ex_pair @ [Transport 1 WS_CLOSING])) 0) = Some (Some 1) \<and>
   map_option partner (clients (run (ex_pair @ [Transport 1 WS_CLOSING])) 1) = Some (Some 0) \<and>
   sent (step (run (ex_pair @ [Transport 1 WS_CLOSING])) (Close 0)) =
     [(1, matched True (JStr ''a'')), (0, matched False (JStr ''b''))]"
  by (simp add: ex_defs run_defs)

text \<open>
  C4, amended. When a registered connection \<open>w\<close> disconnects: its entry is removed;
  \<open>waitingUser\<close> is cleared if it held \<open>w\<close> and is otherwise kept; if \<open>w\<close> had a partner \<open>p\<close>
  that is registered, the partner field of \<open>p\<close> becomes null and \<open>p\<close> is sent exactly one
  \<open>partner-left\<close> if its transport is open, and nothing otherwise; with no partner, or an
  unregistered one, nothing is sent; and if beforehand only the partner of \<open>w\<close> named \<open>w\<close>
  as its partner, then afterwards no entry names \<open>w\<close>.
\<close>

theorem disconnect_effects:
  assumes c: "clients s w = Some c"
  shows "clients (handleDisconnect s w) w = None \<and>
         waitingUser (handleDisconnect s w) = (if waitingUser s = Some w then None else waitingUser s) \<and>
         (partner c = Some p \<and> p \<noteq> w \<and> clients s p = Some d \<longrightarrow>
            clients (handleDisconnect s w) p = Some (d\<lparr>partner := None\<rparr>) \<and>
            sent (handleDisconnect s w) =
              sent s @ (if readyState s p = WS_OPEN then [(p, partner_left)] else [])) \<and>
         (partner c = None \<or> (\<exists>q. partner c = Some q \<and> clients s q = None) \<longrightarrow>
            sent (handleDisconnect s w) = sent s) \<and>
         ((\<forall>y e. clients s y = Some e \<and> partner e = Some w \<longrightarrow> partner c = Some y) \<and>
            clients (handleDisconnect s w) x = Some e' \<longrightarrow> partner e' \<noteq> Some w)"
proof -
  have 1: "clients (handleDisconnect s w) w = None"
    by (simp add: handleDisconnect_clients [OF c])
  have 2: "waitingUser (handleDisconnect s w) = (if waitingUser s = Some w then None else waitingUser s)"
    by (rule handleDisconnect_waitingUser [OF c])
  have 3: "clients (handleDisconnect s w) p = Some (d\<lparr>partner := None\<rparr>) \<and>
            sent (handleDisconnect s w) =
              sent s @ (if readyState s p = WS_OPEN then [(p, partner_left)] else [])"
    if "partner c = Some p" "p \<noteq> w" "clients s p = Some d" for p d
    using that by (simp add: handleDisconnect_clients [OF c] handleDisconnect_sent [OF c])
  have 4: "sent (handleDisconnect s w) = sent s"
    if "partner c = None \<or> (\<exists>q. partner c = Some q \<and> clients s q = None)"
    using that by (auto simp: handleDisconnect_sent [OF c])
  have 6: "partner e' \<noteq> Some w"
    if only: "\<forall>y e. clients s y = Some e \<and> partner e = Some w \<longrightarrow> partner c = Some y"
      and e: "clients (handleDisconnect s w) x = Some e'"
  proof
    assume pe: "partner e' = Some w"
    from handleDisconnect_entry [OF c e] pe
    obtain e0 where x: "x \<noteq> w" and e0: "clients s x = Some e0" "partner e0 = Some w"
      by auto
    then have "partner c = Some x" using only by blast
    then have "clients (handleDisconnect s w) x = Some (e0\<lparr>partner := None\<rparr>)"
      using 3 x e0(1) by blast
    then show False using e pe by simp
  qed
  show ?thesis using 1 2 3 [of p d] 4 6 by blast
qed

text \<open>The amended C4 when socket 0 leaves the paired run, and when it leaves while waiting.\<close>

theorem disconnect_effects_witness:
  "clients (handleDisconnect (run ex_pair) 0) 0 = None \<and>
   clients (handleDisconnect (run ex_pair) 0) 1 =
     Some \<lparr>cid = ''u1'', name = JStr ''b'', state = CONNECTING, partner = None\<rparr> \<and>
   sent (handleDisconnect (run ex_pair) 0) = sent (run ex_pair) @ [(1, partner_left)] \<and>
   partner \<lparr>cid = ''u1'', name = JStr ''b'', state = CONNECTING, partner = None\<rparr> \<noteq> Some 0 \<and>
   waitingUser (handleDisconnect (run ex_wait) 0) = None \<and>
   sent (handleDisconnect (run ex_wait) 0) = sent (run ex_wait)"
proof -
  let ?c = "\<lparr>cid = ''u0'', name = JStr ''a'', state = CONNECTING, partner = Some 1\<rparr>"
  let ?d = "\<lparr>cid = ''u1'', name = JStr ''b'', state = CONNECTING, partner = Some 0\<rparr>"
  let ?d' = "\<lparr>cid = ''u1'', name = JStr ''b'', state = CONNECTING, partner = None\<rparr>"
  let ?c' = "\<lparr>cid = ''u0'', name = JStr ''a'', state = SEARCHING, partner = None\<rparr>"
  have c: "clients (run ex_pair) 0 = Some ?c"
    by (simp add: ex_defs run_defs)
  have d: "clients (run ex_pair) 1 = Some ?d"
    by (simp add: ex_defs run_defs)
  have r: "readyState (run ex_pair) 1 = WS_OPEN"
    by (simp add: ex_defs run_defs)
  have only: "\<forall>y e. clients (run ex_pair) y = Some e \<and> partner e = Some 0 \<longrightarrow> partner ?c = Some y"
    by (simp add: ex_defs run_defs)
  have c': "clients (run ex_wait) 0 = Some ?c'"
    by (simp add: ex_defs run_defs)
  have w': "waitingUser (run ex_wait) = Some 0"
    by (simp add: ex_defs run_defs)
  note paired = disconnect_effects [OF c, of 1 ?d 1 ?d']
  note waiting = disconnect_effects [OF c', of 1 ?d 1 ?d']
  have 1: "clients (handleDisconnect (run ex_pair) 0) 0 = None"
    using paired by (rule conjunct1)
  have 2: "clients (handleDisconnect (run ex_pair) 0) 1 = Some ?d' \<and>
           sent (handleDisconnect (run ex_pair) 0) = sent (run ex_pair) @ [(1, partner_left)]"
    using paired [THEN conjunct2, THEN conjunct2, THEN conjunct1] d r by simp
  have 3: "partner ?d' \<noteq> Some 0"
    using paired [THEN conjunct2, THEN conjunct2, THEN conjunct2, THEN conjunct2]
      only 2 by blast
  have 4: "waitingUser (handleDisconnect (run ex_wait) 0) = None"
    using waiting [THEN conjunct2, THEN conjunct1] w' by simp
  have 5: "sent (handleDisconnect (run ex_wait) 0) = sent (run ex_wait)"
    using waiting [THEN conjunct2, THEN conjunct2, THEN conjunct2, THEN conjunct1] by simp
  show ?thesis using 1 2 3 4 5 by blast
qed

subsection \<open>C5\<close>

text \<open>
  C5 as stated fails: the envelope does not reach the partner unmodified. Socket 1 of the
  paired run sends the frame \<open>{"type":"signal","n":1e999}\<close>; \<open>JSON.parse\<close> reads the number
  as \<open>Infinity\<close>, and the text that the partner, socket 0, is sent is
  \<open>{"type":"signal","n":null}\<close>.
\<close>

theorem signal_is_reserialised:
  \<open>parses ex_overflow_text ex_overflow \<and>
   wire (step (run ex_pair) (Message 1 (Parsed ex_overflow))) =
     wire (run ex_pair) @ [(0, ''{"type":"signal","n":null}'')] \<and>
   ex_overflow_text \<noteq> ''{"type":"signal","n":null}''\<close>
proof -
  have "wire (step (run ex_pair) (Message 1 (Parsed ex_overflow))) =
          wire (run ex_pair) @ [(0, JSON_stringify ex_overflow)]"
    by (simp add: ex_defs run_defs)
  then show ?thesis
    using parses_ex_overflow by (simp add: ex_defs text_defs)
qed

text \<open>
  C5, amended. A frame of type \<open>signal\<close> from a registered connection: when the connection
  has a partner whose transport is open, the value that \<open>JSON.parse\<close> returned for the frame
  is serialised again and the partner is sent that text, \<open>JSON.stringify\<close> of the parsed
  frame, and nothing else changes; with no partner, or a partner whose transport is not
  open, the state is left as it was (no send, nothing stored, no error reply). The statement
  holds for every frame whose \<open>type\<close> is \<open>signal\<close>, whatever else it carries.
\<close>

theorem signal_forwarded_or_dropped:
  assumes "clients s w = Some c" "get_prop data ''type'' = Some (JStr ''signal'')"
  shows "on_message s w (Parsed data) =
           (case partner c of
              None \<Rightarrow> s
            | Some p \<Rightarrow>
                if readyState s p = WS_OPEN
                then s\<lparr>sent := sent s @ [(p, data)],
                       wire := wire s @ [(p, JSON_stringify data)]\<rparr>
                else s)"
proof -
  have "data \<noteq> JNull" using assms(2) by (cases data) simp_all
  then show ?thesis using assms
    by (simp add: on_message_def handleSignal_def sendJSON_def ws_send_def split: option.splits)
qed

text \<open>
  The amended C5 at the paired run: the sample frame, which is written the way
  \<open>JSON.stringify\<close> writes, reaches the open partner with the text it came with; with the
  partner's transport closing it is dropped.
\<close>

theorem signal_forwarded_or_dropped_witness:
  "parses ex_signal_text ex_signal \<and>
   on_message (run ex_pair) 1 (Parsed ex_signal) =
     (run ex_pair)\<lparr>sent := sent (run ex_pair) @ [(0, ex_signal)],
                    wire := wire (run ex_pair) @ [(0, ex_signal_text)]\<rparr> \<and>
   on_message (run (ex_pair @ [Transport 0 WS_CLOSING])) 1 (Parsed ex_signal) =
     run (ex_pair @ [Transport 0 WS_CLOSING])"
proof -
  have c: "clients (run ex_pair) 1 =
             Some \<lparr>cid = ''u1'', name = JStr ''b'', state = CONNECTING, partner = Some 0\<rparr>"
    by (simp add: ex_defs run_defs)
  have c': "clients (run (ex_pair @ [Transport 0 WS_CLOSING])) 1 =
             Some \<lparr>cid = ''u1'', name = JStr ''b'', state = CONNECTING, partner = Some 0\<rparr>"
    by (simp add: ex_defs run_defs)
  have t: "get_prop ex_signal ''type'' = Some (JStr ''signal'')"
    by (simp add: ex_defs)
  have r: "readyState (run ex_pair) 0 = WS_OPEN"
    by (simp add: ex_defs run_defs)
  have r': "readyState (run (ex_pair @ [Transport 0 WS_CLOSING])) 0 = WS_CLOSING"
    by (simp add: ex_defs run_defs)
  have x: "JSON_stringify ex_signal = ex_signal_text"
    by (simp add: ex_defs text_defs)
  show ?thesis
    using signal_forwarded_or_dropped [OF c t] signal_forwarded_or_dropped [OF c' t] r r' x
      parses_ex_signal
    by simp
qed

subsection \<open>C6\<close>

text \<open>
  C6 as stated fails: a registered, open, idle connection sends the well-formed frame
  \<open>{"type": "ping"}\<close>, or \<open>{"type": "bogus"}\<close> with a type that the protocol does not know
  at all, and no reply is sent.
\<close>

theorem unknown_type_gets_no_reply:
  "map_option state (clients (run ex_wait) 1) = Some IDLE \<and>
   readyState (run ex_wait) 1 = WS_OPEN \<and>
   sent (run ex_wait) = [] \<and>
   sent (on_message (run ex_wait) 1 (Parsed ex_ping)) = [] \<and>
   sent (on_message (run ex_wait) 1 (Parsed ex_bogus)) = []"
  by (simp add: ex_defs run_defs)

text \<open>
  C6, amended. A frame that does not parse is answered with one \<open>error\<close> reply to the
  sender, and so is the JSON value \<open>null\<close> from a registered connection; a parsed frame
  other than \<open>null\<close> whose type is none of \<open>join\<close>, \<open>signal\<close>, \<open>connected\<close> is ignored
  without any reply. In each case the entries, \<open>waitingUser\<close> and every \<open>readyState\<close> are
  as before.
\<close>

theorem protocol_faults:
  "on_message s w Unparseable =
     s\<lparr>sent := sent s @ [(w, error_reply)],
       wire := wire s @ [(w, JSON_stringify error_reply)]\<rparr> \<and>
   (clients s w \<noteq> None \<longrightarrow>
      on_message s w (Parsed JNull) =
        s\<lparr>sent := sent s @ [(w, error_reply)],
          wire := wire s @ [(w, JSON_stringify error_reply)]\<rparr>) \<and>
   (data \<noteq> JNull \<and> get_prop data ''type'' \<noteq> Some (JStr ''join'') \<and>
    get_prop data ''type'' \<noteq> Some (JStr ''signal'') \<and>
    get_prop data ''type'' \<noteq> Some (JStr ''connected'') \<longrightarrow>
      on_message s w (Parsed data) = s)"
  by (auto simp: on_message_def ws_send_def split: option.splits)

text \<open>The amended C6 for connection 1 of the run \<open>ex_wait\<close>.\<close>

theorem protocol_faults_witness:
  \<open>sent (on_message (run ex_wait) 1 Unparseable) = [(1, error_reply)] \<and>
   wire (on_message (run ex_wait) 1 Unparseable) =
     [(1, ''{"type":"error","message":"Invalid payload"}'')] \<and>
   sent (on_message (run ex_wait) 1 (Parsed JNull)) = [(1, error_reply)] \<and>
   clients (on_message (run ex_wait) 1 Unparseable) = clients (run ex_wait) \<and>
   waitingUser (on_message (run ex_wait) 1 Unparseable) = waitingUser (run ex_wait) \<and>
   readyState (on_message (run ex_wait) 1 Unparseable) = readyState (run ex_wait) \<and>
   on_message (run ex_wait) 1 (Parsed ex_ping) = run ex_wait\<close>
proof -
  have c: "clients (run ex_wait) 1 \<noteq> None"
    by (simp add: ex_defs run_defs)
  have s: "sent (run ex_wait) = []" "wire (run ex_wait) = []"
    by (simp_all add: ex_defs run_defs)
  have p: "ex_ping \<noteq> JNull \<and> get_prop ex_ping ''type'' \<noteq> Some (JStr ''join'') \<and>
    get_prop ex_ping ''type'' \<noteq> Some (JStr ''signal'') \<and>
    get_prop ex_ping ''type'' \<noteq> Some (JStr ''connected'')"
    by (simp add: ex_defs)
  have e: \<open>JSON_stringify error_reply = ''{"type":"error","message":"Invalid payload"}''\<close>
    by (simp add: error_reply_def text_defs)
  show ?thesis
    using protocol_faults [of "run ex_wait" 1 ex_ping] c s p e by simp
qed

subsection \<open>C7\<close>

text \<open>
  C7. A join from a connection whose state is already \<open>SEARCHING\<close> changes nothing: the
  whole state after \<open>handleJoin\<close>, and after the \<open>message\<close> handler on any frame of type
  \<open>join\<close>, is the state before: no name update, no slot change, no pairing, no send.
\<close>

theorem join_while_searching_is_noop:
  assumes "clients s w = Some c" "state c = SEARCHING"
  shows "handleJoin s w nm = s \<and>
         (get_prop data ''type'' = Some (JStr ''join'') \<longrightarrow> on_message s w (Parsed data) = s)"
proof -
  have j: "handleJoin s w n = s" for n
    using assms by (rule handleJoin_searching)
  have "data \<noteq> JNull" if "get_prop data ''type'' = Some (JStr ''join'')"
    using that by (cases data) simp_all
  then show ?thesis using assms(1) by (simp add: on_message_def j)
qed

text \<open>C7 for the waiting connection 0 of the run \<open>ex_wait\<close>.\<close>

theorem join_while_searching_is_noop_witness:
  "handleJoin (run ex_wait) 0 (Some (JStr ''z'')) = run ex_wait \<and>
   on_message (run ex_wait) 0 (join_frame ''z'') = run ex_wait"
proof -
  have c: "clients (run ex_wait) 0 =
             Some \<lparr>cid = ''u0'', name = JStr ''a'', state = SEARCHING, partner = None\<rparr>"
    by (simp add: ex_defs run_defs)
  show ?thesis
    using join_while_searching_is_noop [OF c, of "Some (JStr ''z'')"
        "JObj [(''type'', JStr ''join''), (''name'', JStr ''z'')]"]
    by (simp add: join_frame_def)
qed

subsection \<open>C8\<close>

text \<open>
  C8. In every state a run can reach, a join that finds \<open>waitingUser\<close> occupied by a stale
  connection (unregistered, or no longer \<open>SEARCHING\<close>) makes the arrival the new occupant,
  sends nothing, and changes no entry but the arrival's name and state: no partner field is
  written.
\<close>

theorem stale_occupant_is_replaced:
  assumes "clients (run evs) w = Some c" "waitingUser (run evs) = Some p" "stale (run evs) p"
  shows "waitingUser (handleJoin (run evs) w nm) = Some w \<and>
         sent (handleJoin (run evs) w nm) = sent (run evs) \<and>
         clients (handleJoin (run evs) w nm) =
           (clients (run evs))(w \<mapsto> c\<lparr>name := or_stranger nm, state := SEARCHING\<rparr>)"
proof -
  have "state c \<noteq> SEARCHING"
  proof
    assume "state c = SEARCHING"
    then have "waitingUser (run evs) = Some w"
      using inv_searching [OF inv_run assms(1)] by simp
    then show False using assms \<open>state c = SEARCHING\<close> by (simp add: stale_def)
  qed
  then show ?thesis
    by (simp add: handleJoin_stale_slot [OF assms(1) _ assms(2,3)])
qed

text \<open>C8 at the run \<open>ex_stale\<close>: socket 1 joins and meets the stale occupant 0.\<close>

theorem stale_occupant_is_replaced_witness:
  "waitingUser (run ex_stale) = Some 0 \<and> stale (run ex_stale) 0 \<and>
   waitingUser (handleJoin (run ex_stale) 1 (Some (JStr ''b''))) = Some 1 \<and>
   sent (handleJoin (run ex_stale) 1 (Some (JStr ''b''))) = []"
proof -
  have c: "clients (run ex_stale) 1 =
             Some \<lparr>cid = ''u1'', name = JStr ''Anonymous'', state = IDLE, partner = None\<rparr>"
    by (simp add: ex_defs run_defs)
  have w: "waitingUser (run ex_stale) = Some 0"
    by (simp add: ex_defs run_defs)
  have st: "stale (run ex_stale) 0"
    by (simp add: stale_def ex_defs run_defs)
  have se: "sent (run ex_stale) = []"
    by (simp add: ex_defs run_defs)
  show ?thesis
    using stale_occupant_is_replaced [OF c w st, of "Some (JStr ''b'')"] w st se by simp
qed

subsection \<open>C9\<close>

text \<open>
  C9 as stated fails: in the run \<open>ex_again\<close> socket 1 is paired (state \<open>CONNECTING\<close>,
  partner 0) while its partner 0 has joined again and waits. When 1 sends join, the entry
  of its former partner 0 goes from \<open>SEARCHING\<close> to \<open>CONNECTING\<close> and 0 is sent \<open>matched\<close>.
\<close>

theorem rejoin_pairs_with_waiting_former_partner:
  "map_option state (clients (run ex_again) 1) = Some CONNECTING \<and>
   map_option partner (clients (run ex_again) 1) = Some (Some 0) \<and>
   clients (run ex_again) 0 =
     Some \<lparr>cid = ''u0'', name = JStr ''a'', state = SEARCHING, partner = Some 1\<rparr> \<and>
   clients (step (run ex_again) (Message 1 (join_frame ''b''))) 0 =
     Some \<lparr>cid = ''u0'', name = JStr ''a'', state = CONNECTING, partner = Some 1\<rparr> \<and>
   sent (step (run ex_again) (Message 1 (join_frame ''b''))) =
     sent (run ex_again) @ [(1, matched True (JStr ''a'')), (0, matched False (JStr ''b''))]"
  by (simp add: ex_defs run_defs)

text \<open>
  C9, amended. In every state a run can reach, a join from a connection \<open>w\<close> in state
  \<open>CONNECTING\<close> or \<open>CONNECTED\<close> with partner \<open>q\<close>, where \<open>q\<close> is not itself \<open>SEARCHING\<close>,
  leaves the entry of \<open>q\<close> as it was and sends \<open>q\<close> nothing; \<open>w\<close> takes the new name and
  either waits (state \<open>SEARCHING\<close>, occupant of \<open>waitingUser\<close>) or is paired with the
  occupant of \<open>waitingUser\<close>, which is not \<open>q\<close>.
\<close>

theorem rejoin_while_paired:
  assumes c: "clients (run evs) w = Some c"
    and st: "state c = CONNECTING \<or> state c = CONNECTED"
    and q: "partner c = Some q"
    and nq: "\<forall>d. clients (run evs) q = Some d \<longrightarrow> state d \<noteq> SEARCHING"
  shows "clients (handleJoin (run evs) w nm) q = clients (run evs) q \<and>
         filter (\<lambda>x. fst x = q) (sent (handleJoin (run evs) w nm)) =
           filter (\<lambda>x. fst x = q) (sent (run evs)) \<and>
         (\<exists>c'. clients (handleJoin (run evs) w nm) w = Some c' \<and> name c' = or_stranger nm \<and>
            (state c' = SEARCHING \<and> waitingUser (handleJoin (run evs) w nm) = Some w
             \<or> state c' = CONNECTING \<and> partner c' \<noteq> Some q \<and>
               partner c' = waitingUser (run evs) \<and>
               waitingUser (handleJoin (run evs) w nm) = None))"
proof -
  let ?s = "run evs"
  have qw: "q \<noteq> w" using inv_no_self [OF inv_run c] q by auto
  have ns: "state c \<noteq> SEARCHING" using st by auto
  show ?thesis
  proof (cases ?s w rule: handleJoin_cases)
    case unregistered
    then show ?thesis using c by simp
  next
    case (searching c0)
    then show ?thesis using c ns by simp
  next
    case (empty_slot c0)
    then have "c0 = c" using c by simp
    then show ?thesis using qw q
      by (simp add: handleJoin_empty_slot [OF empty_slot])
  next
    case (stale_slot c0 p)
    then have c0: "c0 = c" using c by simp
    have "handleJoin ?s w nm =
           ?s\<lparr>clients := (clients ?s)(w \<mapsto> c\<lparr>name := or_stranger nm, state := SEARCHING\<rparr>),
             waitingUser := Some w\<rparr>"
    proof (cases "p = w")
      case True
      then show ?thesis using stale_slot c0 by (simp add: handleJoin_own_slot)
    next
      case False
      then show ?thesis using stale_slot c0 by (simp add: handleJoin_stale_slot)
    qed
    then show ?thesis using qw q by simp
  next
    case (pair c0 p d)
    then have c0: "c0 = c" using c by simp
    have pq: "p \<noteq> q" using nq pair(5,6) by auto
    show ?thesis
      unfolding handleJoin_pair [OF pair]
      using qw pq pair(3,4) q c0 by (simp add: sendJSON_fields)
  qed
qed

text \<open>The amended C9 when socket 0 of the paired run joins again.\<close>

theorem rejoin_while_paired_witness:
  "clients (handleJoin (run ex_pair) 0 (Some (JStr ''a2''))) 1 = clients (run ex_pair) 1 \<and>
   filter (\<lambda>x. fst x = 1) (sent (handleJoin (run ex_pair) 0 (Some (JStr ''a2'')))) =
     filter (\<lambda>x. fst x = 1) (sent (run ex_pair)) \<and>
   clients (run ex_pair) 1 =
     Some \<lparr>cid = ''u1'', name = JStr ''b'', state = CONNECTING, partner = Some 0\<rparr>"
proof -
  have c: "clients (run ex_pair) 0 =
             Some \<lparr>cid = ''u0'', name = JStr ''a'', state = CONNECTING, partner = Some 1\<rparr>"
    by (simp add: ex_defs run_defs)
  have d: "clients (run ex_pair) 1 =
             Some \<lparr>cid = ''u1'', name = JStr ''b'', state = CONNECTING, partner = Some 0\<rparr>"
    by (simp add: ex_defs run_defs)
  have nq: "\<forall>d. clients (run ex_pair) 1 = Some d \<longrightarrow> state d \<noteq> SEARCHING"
    using d by simp
  show ?thesis
    using rejoin_while_paired [OF c _ _ nq, of "Some (JStr ''a2'')"] d by simp
qed

subsection \<open>C10\<close>

text \<open>
  C10 as stated fails: the transport of socket 0 is closing when an unparseable frame of
  its arrives, and the \<open>error\<close> reply is sent to it all the same.
\<close>

theorem error_reply_is_not_guarded:
  "readyState (run [Connection origin_ok ''u0'', Transport 0 WS_CLOSING]) 0 = WS_CLOSING \<and>
   sent (run [Connection origin_ok ''u0'', Transport 0 WS_CLOSING, Message 0 Unparseable]) =
     [(0, error_reply)]"
  by (simp add: run_defs)

text \<open>
  C10, amended. Every send made by \<open>handleJoin\<close>, \<open>handleSignal\<close> and \<open>handleDisconnect\<close>
  (\<open>matched\<close>, a forwarded signal, \<open>partner-left\<close>) goes to a socket whose \<open>readyState\<close> is
  \<open>OPEN\<close>, and a notification for a socket that is not open is skipped. The \<open>error\<close> reply
  to an unparseable frame is sent whatever the sender's \<open>readyState\<close>; it is the only send
  of the \<open>message\<close> handler that may reach a socket that is not open.
\<close>

theorem notifications_guarded:
  "guarded s (handleJoin s w nm) \<and>
   guarded s (handleSignal s w data) \<and>
   guarded s (handleDisconnect s w) \<and>
   new_sends s (on_message s w Unparseable) = [(w, error_reply)] \<and>
   (\<forall>x \<in> set (new_sends s (on_message s w f)).
      readyState s (fst x) = WS_OPEN \<or> x = (w, error_reply))"
  using on_message_sends [of s w f]
  by (simp add: guarded_handleJoin guarded_handleSignal guarded_handleDisconnect
      new_sends_def on_message_def ws_send_def)

text \<open>
  The amended C10 when socket 1 joins and the waiting socket 0 is closing: the one send
  added goes to socket 1, which is open.
\<close>

theorem notifications_guarded_witness:
  "new_sends (run (ex_wait @ [Transport 0 WS_CLOSING]))
     (handleJoin (run (ex_wait @ [Transport 0 WS_CLOSING])) 1 (Some (JStr ''b''))) =
     [(1, matched True (JStr ''a''))] \<and>
   readyState (run (ex_wait @ [Transport 0 WS_CLOSING])) 1 = WS_OPEN \<and>
   readyState (run (ex_wait @ [Transport 0 WS_CLOSING])) 0 = WS_CLOSING"
proof -
  let ?s = "run (ex_wait @ [Transport 0 WS_CLOSING])"
  have n: "new_sends ?s (handleJoin ?s 1 (Some (JStr ''b''))) = [(1, matched True (JStr ''a''))]"
    by (simp add: new_sends_def ex_defs run_defs)
  have "\<forall>x \<in> set (new_sends ?s (handleJoin ?s 1 (Some (JStr ''b'')))). readyState ?s (fst x) = WS_OPEN"
    using notifications_guarded [of ?s 1 "Some (JStr ''b'')"] by (simp add: guarded_def)
  then have "readyState ?s 1 = WS_OPEN" unfolding n by simp
  moreover have "readyState ?s 0 = WS_CLOSING" by (simp add: ex_defs run_defs)
  ultimately show ?thesis using n by simp
qed

end
